theory Spec2Isabelle
  imports Main "HOL-Library.Sublist" "HOL-Library.Multiset"
begin

section \<open>JavaScript values used by the tools\<close>

text \<open>
  A string is a list of characters (code units below 256), \<open>null\<close> and \<open>undefined\<close> are
  \<open>None\<close>. The numbers the programs handle (HTTP status codes, counters, elapsed
  milliseconds, a parsed option value) are integers.
\<close>

definition num_or :: "int option \<Rightarrow> int \<Rightarrow> int" where
  \<comment> \<open>\<open>x || d\<close> for a number or null \<open>x\<close>: null and 0 are falsy.\<close>
  "num_or x d = (case x of None \<Rightarrow> d | Some n \<Rightarrow> if n = 0 then d else n)"

definition str_or :: "string option \<Rightarrow> string \<Rightarrow> string" where
  \<comment> \<open>\<open>x || d\<close> for a string or null \<open>x\<close>: null and the empty string are falsy.\<close>
  "str_or x d = (case x of None \<Rightarrow> d | Some s \<Rightarrow> if s = [] then d else s)"

fun includes_s :: "string \<Rightarrow> string \<Rightarrow> bool" where
  \<comment> \<open>\<open>s.includes(t)\<close>: \<open>t\<close> starts at some position of \<open>s\<close>.\<close>
  "includes_s [] t = (t = [])"
| "includes_s (c # cs) t = (prefix t (c # cs) \<or> includes_s cs t)"

definition is_space :: "char \<Rightarrow> bool" where
  \<comment> \<open>White space and line terminators of ECMAScript among the code units below 256:
      TAB, LF, VT, FF, CR, SP, NBSP.\<close>
  "is_space c = (c \<in> {CHR 0x09, CHR 0x0A, CHR 0x0B, CHR 0x0C, CHR 0x0D, CHR 0x20, CHR 0xA0})"

definition trim :: "string \<Rightarrow> string" where
  "trim s = rev (dropWhile is_space (rev (dropWhile is_space s)))"

fun split_nl :: "string \<Rightarrow> string list" where
  \<comment> \<open>\<open>s.split('\n')\<close>: always at least one piece.\<close>
  "split_nl [] = [[]]"
| "split_nl (c # cs) =
     (if c = CHR 0x0A then [] # split_nl cs
      else (case split_nl cs of [] \<Rightarrow> [[c]] | l # ls \<Rightarrow> (c # l) # ls))"

fun indexOf :: "string list \<Rightarrow> string \<Rightarrow> nat option" where
  \<comment> \<open>\<open>args.indexOf(x)\<close>, with \<open>None\<close> for -1.\<close>
  "indexOf [] x = None"
| "indexOf (a # as) x = (if a = x then Some 0 else map_option Suc (indexOf as x))"

definition at :: "'a list \<Rightarrow> nat \<Rightarrow> 'a option" where
  \<comment> \<open>\<open>xs[i]\<close>: undefined beyond the end.\<close>
  "at xs i = (if i < length xs then Some (xs ! i) else None)"

definition is_digit :: "char \<Rightarrow> bool" where
  "is_digit c = (48 \<le> (of_char c :: nat) \<and> (of_char c :: nat) \<le> 57)"

definition digits_value :: "string \<Rightarrow> int" where
  "digits_value ds = foldl (\<lambda>a c. 10 * a + (int (of_char c) - 48)) 0 ds"

definition parseInt :: "string \<Rightarrow> int option" where
  \<comment> \<open>\<open>parseInt(s, 10)\<close>: leading white space, an optional sign, then the longest run of
      decimal digits; \<open>None\<close> is NaN.\<close>
  "parseInt s =
     (let t = dropWhile is_space s;
          (neg, d) = (case t of
                        [] \<Rightarrow> (False, [])
                      | c # r \<Rightarrow> if c = CHR ''-'' then (True, r)
                                 else if c = CHR ''+'' then (False, r) else (False, t));
          ds = takeWhile is_digit d
      in if ds = [] then None
         else Some (if neg then - digits_value ds else digits_value ds))"

section \<open>check-links: configuration\<close>

record config =
  concurrency :: nat
  timeout :: nat
  userAgent :: string
  headless :: bool
  retries :: nat

definition CONFIG :: config where
  "CONFIG = \<lparr>concurrency = 5, timeout = 15000,
             userAgent = ''Mozilla/5.0 (Macintosh; Intel Mac OS X 10_15_7) AppleWebKit/537.36 (KHTML, like Gecko) Chrome/120.0.0.0 Safari/537.36'',
             headless = True, retries = 1\<rparr>"

section \<open>check-links: extractUrls\<close>

definition url_char :: "char \<Rightarrow> bool" where
  \<comment> \<open>The class \<^verbatim>\<open>[^\s\)>\]"']\<close>.\<close>
  "url_char c = (\<not> is_space c \<and> c \<noteq> CHR '')'' \<and> c \<noteq> CHR ''>'' \<and> c \<noteq> CHR '']''
                 \<and> c \<noteq> CHR 0x22 \<and> c \<noteq> CHR 0x27)"

definition scheme :: "string \<Rightarrow> string option" where
  \<comment> \<open>The part \<^verbatim>\<open>https?:\/\/\<close> of the pattern, at the head of the text.\<close>
  "scheme s = (if prefix ''https://'' s then Some ''https://''
               else if prefix ''http://'' s then Some ''http://'' else None)"

definition match_url :: "string \<Rightarrow> (string \<times> string) option" where
  \<comment> \<open>One match of \<^verbatim>\<open>/https?:\/\/[^\s\)>\]"']+/\<close> starting at the head of the text:
      the matched string and the text after it.\<close>
  "match_url s =
     (case scheme s of
        None \<Rightarrow> None
      | Some p \<Rightarrow>
          (let r = drop (length p) s; body = takeWhile url_char r
           in if body = [] then None else Some (p @ body, dropWhile url_char r)))"

function match_all :: "string \<Rightarrow> string list" where
  \<comment> \<open>\<open>content.match(urlPattern) || []\<close> with the \<open>g\<close> flag: every match, left to right,
      the search resuming after each match.\<close>
  "match_all [] = []"
| "match_all (c # cs) =
     (case match_url (c # cs) of
        Some (m, rest) \<Rightarrow> m # match_all rest
      | None \<Rightarrow> match_all cs)"
  by pat_completeness auto
termination
proof (relation "measure length")
  show "wf (measure length)" by simp
next
  fix c :: char and cs x2 m rest
  assume a: "match_url (c # cs) = Some x2" "(m, rest) = x2"
  then obtain p where sc: "scheme (c # cs) = Some p"
      and r: "rest = dropWhile url_char (drop (length p) (c # cs))"
    by (cases "scheme (c # cs)") (auto simp: match_url_def Let_def split: if_splits)
  from sc have p: "p \<noteq> []"
    by (auto simp: scheme_def split: if_splits)
  have "length rest \<le> length (drop (length p) (c # cs))"
    unfolding r by (rule length_dropWhile_le)
  also have "\<dots> < length (c # cs)" using p by (cases p) auto
  finally show "(rest, c # cs) \<in> measure length" by simp
next
  fix c :: char and cs
  show "(cs, c # cs) \<in> measure length" by simp
qed

definition is_trailing :: "char \<Rightarrow> bool" where
  \<comment> \<open>The class \<^verbatim>\<open>[,.\)]\<close>.\<close>
  "is_trailing c = (c = CHR '','' \<or> c = CHR ''.'' \<or> c = CHR '')'')"

definition clean :: "string \<Rightarrow> string" where
  \<comment> \<open>\<^verbatim>\<open>url.replace(/[,.\)]+$/, '')\<close>: the trailing run of the class is removed.\<close>
  "clean u = rev (dropWhile is_trailing (rev u))"

definition dedupe :: "'a list \<Rightarrow> 'a list" where
  \<comment> \<open>\<open>[...new Set(xs)]\<close>: the first occurrence of each element, in order.\<close>
  "dedupe xs = foldl (\<lambda>acc x. if x \<in> set acc then acc else acc @ [x]) [] xs"

definition extractUrls :: "string \<Rightarrow> string list" where
  "extractUrls content = dedupe (map clean (match_all content))"

section \<open>check-links: checkUrl\<close>

record fetch_result =
  url :: string
  status :: "int option"
  statusText :: "string option"
  title :: "string option"
  error :: "string option"
  time :: "int option"

datatype jsval = JNull | JNum int | JStr string

definition result_object :: "fetch_result \<Rightarrow> (string \<times> jsval) list" where
  \<comment> \<open>The properties of the object literal that \<open>checkUrl\<close> fills in and returns.\<close>
  "result_object r =
     [(''url'', JStr (url r)),
      (''status'', case_option JNull JNum (status r)),
      (''statusText'', case_option JNull JStr (statusText r)),
      (''title'', case_option JNull JStr (title r)),
      (''error'', case_option JNull JStr (error r)),
      (''time'', case_option JNull JNum (time r))]"

text \<open>
  What the browser does with one navigation: \<open>page.goto\<close> resolves with a response (its
  status and status text) or with null, and \<open>page.title()\<close> gives the title or fails;
  or \<open>page.goto\<close> rejects with an error message.
\<close>

datatype navigation =
    Response "(int \<times> string) option" "string option"
  | Thrown string

definition failure :: "string \<Rightarrow> string \<Rightarrow> int \<Rightarrow> int option \<Rightarrow> string option \<Rightarrow> fetch_result" where
  "failure u msg ms st txt =
     \<lparr>url = u, status = st, statusText = txt, title = None, error = Some msg, time = Some ms\<rparr>"

definition checkUrl :: "string \<Rightarrow> navigation \<Rightarrow> int \<Rightarrow> fetch_result" where
  \<comment> \<open>The third argument is the elapsed time \<open>Date.now() - start\<close>.\<close>
  "checkUrl u nav ms =
     (case nav of
        Response resp ttl \<Rightarrow>
          \<lparr>url = u,
           status = Some (num_or (map_option fst resp) 0),
           statusText = Some (str_or (map_option snd resp) ''Unknown''),
           title = ttl, error = None, time = Some ms\<rparr>
      | Thrown msg \<Rightarrow>
          if includes_s msg ''net::ERR_NAME_NOT_RESOLVED''
            then failure u msg ms (Some 0) (Some ''DNS_FAILED'')
          else if includes_s msg ''net::ERR_CONNECTION_REFUSED''
            then failure u msg ms (Some 0) (Some ''CONNECTION_REFUSED'')
          else if includes_s msg ''net::ERR_CONNECTION_TIMED_OUT''
            then failure u msg ms (Some 0) (Some ''TIMEOUT'')
          else if includes_s msg ''Navigation timeout''
            then failure u msg ms (Some 0) (Some ''NAV_TIMEOUT'')
          else failure u msg ms None None)"

section \<open>check-links: processUrls\<close>

text \<open>
  The workers are asynchronous functions on one event loop: between two \<open>await\<close>s a worker
  runs alone, and the order in which the awaited operations complete is the environment's
  choice. A worker is suspended at the page set-up, at the first or the second
  \<open>checkUrl\<close> of a target, at the one-second pause between them, or at \<open>page.close()\<close>.
  The page set-up (\<open>browser.newPage()\<close> and the three settings) and \<open>page.close()\<close> are
  not inside any \<open>try\<close>: when one of them rejects, the worker's promise rejects, and so
  does \<open>Promise.all(workers)\<close>. \<open>checkUrl\<close> catches what the navigation throws, and the
  timer of the pause cannot fail. Between the four \<open>await\<close>s of the page set-up, and between
  the two of \<open>checkUrl\<close> (\<open>page.goto\<close> and \<open>page.title()\<close>), a worker reads and writes
  nothing that another worker can see, so each of the two is one step here.
  A queue element is a string or \<open>undefined\<close> (\<open>--url\<close> given as the last argument).
\<close>

type_synonym target = "string option"

definition falsy :: "target \<Rightarrow> bool" where
  \<comment> \<open>\<open>!url\<close>\<close>
  "falsy t = (case t of None \<Rightarrow> True | Some s \<Rightarrow> s = [])"

datatype pc =
  Start | Fetch1 string | Backoff string | Fetch2 string | Closing | Finished | Crashed

text \<open>
  The state shared by the workers: the array \<open>queue\<close>, the array \<open>results\<close> of
  \<open>processUrls\<close> (the field \<open>pushed\<close>; \<open>results\<close> names the field of the report below),
  where each worker is suspended, and the state of \<open>Promise.all(workers)\<close>: the first
  error a worker has thrown, if any.
\<close>

record pool =
  queue :: "target list"
  pushed :: "fetch_result list"
  workers :: "pc list"
  rejected :: "string option"

definition goto_pc :: "nat \<Rightarrow> pc \<Rightarrow> pool \<Rightarrow> pool" where
  "goto_pc i p s = s\<lparr>workers := (workers s)[i := p]\<rparr>"

definition loop_head :: "nat \<Rightarrow> pool \<Rightarrow> pool" where
  \<comment> \<open>\<open>while (queue.length > 0) { const url = queue.shift(); if (!url) break; ... checkUrl\<close>\<close>
  "loop_head i s =
     (case queue s of
        [] \<Rightarrow> goto_pc i Closing s
      | t # q \<Rightarrow>
          (case t of
             None \<Rightarrow> goto_pc i Closing (s\<lparr>queue := q\<rparr>)
           | Some u \<Rightarrow> if u = [] then goto_pc i Closing (s\<lparr>queue := q\<rparr>)
                       else goto_pc i (Fetch1 u) (s\<lparr>queue := q\<rparr>)))"

definition push :: "fetch_result \<Rightarrow> pool \<Rightarrow> pool" where
  \<comment> \<open>\<open>results.push(result)\<close>\<close>
  "push r s = s\<lparr>pushed := pushed s @ [r]\<rparr>"

definition crash :: "nat \<Rightarrow> string \<Rightarrow> pool \<Rightarrow> pool" where
  \<comment> \<open>The worker throws: its promise rejects, and \<open>Promise.all\<close> with it unless it has
      rejected before.\<close>
  "crash i e s =
     goto_pc i Crashed
       (s\<lparr>rejected := (case rejected s of None \<Rightarrow> Some e | Some e0 \<Rightarrow> Some e0)\<rparr>)"

text \<open>
  How an awaited operation completes: it resolves, it rejects with an error message, or,
  for the navigation inside \<open>checkUrl\<close>, it ends with an outcome after some milliseconds.
\<close>

datatype completion = Resolved | Rejected string | Navigated navigation int

definition resume :: "config \<Rightarrow> nat \<Rightarrow> completion \<Rightarrow> pool \<Rightarrow> pool option" where
  \<comment> \<open>The awaited operation of worker \<open>i\<close> completes and the worker runs to its next
      \<open>await\<close>. \<open>None\<close>: there is no such worker, it has returned or thrown, or the
      operation it awaits cannot complete in this way.\<close>
  "resume cfg i c s =
     (if i < length (workers s) then
        (case workers s ! i of
           Start \<Rightarrow>
             (case c of
                Resolved \<Rightarrow> Some (loop_head i s)
              | Rejected e \<Rightarrow> Some (crash i e s)
              | Navigated nav ms \<Rightarrow> None)
         | Fetch1 u \<Rightarrow>
             (case c of
                Resolved \<Rightarrow> None
              | Rejected e \<Rightarrow> None
              | Navigated nav ms \<Rightarrow>
                  (let result = checkUrl u nav ms
                   in if status result = Some 0 \<and> retries cfg > 0
                      then Some (goto_pc i (Backoff u) s)
                      else Some (loop_head i (push result s))))
         | Backoff u \<Rightarrow>
             (case c of
                Resolved \<Rightarrow> Some (goto_pc i (Fetch2 u) s)
              | Rejected e \<Rightarrow> None
              | Navigated nav ms \<Rightarrow> None)
         | Fetch2 u \<Rightarrow>
             (case c of
                Resolved \<Rightarrow> None
              | Rejected e \<Rightarrow> None
              | Navigated nav ms \<Rightarrow> Some (loop_head i (push (checkUrl u nav ms) s)))
         | Closing \<Rightarrow>
             (case c of
                Resolved \<Rightarrow> Some (goto_pc i Finished s)
              | Rejected e \<Rightarrow> Some (crash i e s)
              | Navigated nav ms \<Rightarrow> None)
         | Finished \<Rightarrow> None
         | Crashed \<Rightarrow> None)
      else None)"

text \<open>An event names the worker whose awaited operation completes, and how.\<close>

type_synonym event = "nat \<times> completion"

fun run :: "config \<Rightarrow> event list \<Rightarrow> pool \<Rightarrow> pool option" where
  "run cfg [] s = Some s"
| "run cfg ((i, c) # es) s =
     (case resume cfg i c s of None \<Rightarrow> None | Some s' \<Rightarrow> run cfg es s')"

definition init :: "config \<Rightarrow> target list \<Rightarrow> pool" where
  \<comment> \<open>\<open>queue = [...urls]\<close>, \<open>results = []\<close>, and \<open>CONFIG.concurrency\<close> workers started.\<close>
  "init cfg urls =
     \<lparr>queue = urls, pushed = [], workers = replicate (concurrency cfg) Start, rejected = None\<rparr>"

definition all_finished :: "pool \<Rightarrow> bool" where
  "all_finished s = list_all (\<lambda>p. p = Finished) (workers s)"

definition processUrls ::
  "config \<Rightarrow> target list \<Rightarrow> event list \<Rightarrow> (string + fetch_result list) option" where
  \<comment> \<open>\<open>await Promise.all(workers); return results\<close>, after the given events: \<open>Inl\<close> the error
      thrown when a worker has thrown, \<open>Inr\<close> the results returned when every worker has
      returned, \<open>None\<close> while neither has happened (or the events are not a run).\<close>
  "processUrls cfg urls es =
     (case run cfg es (init cfg urls) of
        None \<Rightarrow> None
      | Some s \<Rightarrow>
          (case rejected s of
             Some e \<Rightarrow> Some (Inl e)
           | None \<Rightarrow> if all_finished s then Some (Inr (pushed s)) else None))"

definition attempt :: "nat \<Rightarrow> completion \<Rightarrow> pool \<Rightarrow> fetch_result list" where
  \<comment> \<open>What the \<open>checkUrl\<close> of worker \<open>i\<close> returns when the event completes its navigation;
      nothing for any other event.\<close>
  "attempt i c s =
     (if i < length (workers s) then
        (case c of
           Resolved \<Rightarrow> []
         | Rejected e \<Rightarrow> []
         | Navigated nav ms \<Rightarrow>
             (case workers s ! i of
                Fetch1 u \<Rightarrow> [checkUrl u nav ms]
              | Fetch2 u \<Rightarrow> [checkUrl u nav ms]
              | _ \<Rightarrow> []))
      else [])"

fun attempts :: "config \<Rightarrow> event list \<Rightarrow> pool \<Rightarrow> fetch_result list" where
  \<comment> \<open>The values returned by all the calls of \<open>checkUrl\<close> in a run, in order of return.\<close>
  "attempts cfg [] s = []"
| "attempts cfg ((i, c) # es) s =
     (case resume cfg i c s of
        None \<Rightarrow> []
      | Some s' \<Rightarrow> attempt i c s @ attempts cfg es s')"

definition fetching :: "pc \<Rightarrow> bool" where
  "fetching p = (case p of Fetch1 u \<Rightarrow> True | Fetch2 u \<Rightarrow> True | _ \<Rightarrow> False)"

definition in_flight :: "pool \<Rightarrow> nat" where
  \<comment> \<open>How many workers are inside a \<open>page.goto\<close>.\<close>
  "in_flight s = length (filter fetching (workers s))"

definition http_target :: "target \<Rightarrow> bool" where
  \<comment> \<open>A target of the design: an absolute http or https URL.\<close>
  "http_target t =
     (case t of None \<Rightarrow> False | Some u \<Rightarrow> prefix ''http://'' u \<or> prefix ''https://'' u)"

section \<open>check-links: generateReport\<close>

text \<open>The field \<open>total_n\<close> is \<open>summary.total\<close>.\<close>

record summary =
  total_n :: nat
  ok :: nat
  redirects :: nat
  clientErrors :: nat
  serverErrors :: nat
  blocked :: nat
  failed :: nat

definition summary0 :: "nat \<Rightarrow> summary" where
  "summary0 n = \<lparr>total_n = n, ok = 0, redirects = 0, clientErrors = 0,
                 serverErrors = 0, blocked = 0, failed = 0\<rparr>"

definition count_status :: "summary \<Rightarrow> int \<Rightarrow> summary" where
  \<comment> \<open>The if-chain of the loop body, in the source's order.\<close>
  "count_status s st =
     (if st \<ge> 200 \<and> st < 300 then s\<lparr>ok := ok s + 1\<rparr>
      else if st \<ge> 300 \<and> st < 400 then s\<lparr>redirects := redirects s + 1\<rparr>
      else if st = 403 then s\<lparr>blocked := blocked s + 1\<rparr>
      else if st \<ge> 400 \<and> st < 500 then s\<lparr>clientErrors := clientErrors s + 1\<rparr>
      else if st \<ge> 500 then s\<lparr>serverErrors := serverErrors s + 1\<rparr>
      else s\<lparr>failed := failed s + 1\<rparr>)"

definition count_key :: "(int \<rightharpoonup> nat) \<Rightarrow> int \<Rightarrow> (int \<rightharpoonup> nat)" where
  \<comment> \<open>\<open>byStatus[status] = (byStatus[status] || 0) + 1\<close>\<close>
  "count_key m k = m(k \<mapsto> (case m k of None \<Rightarrow> 0 | Some c \<Rightarrow> c) + 1)"

definition report_body :: "summary \<times> (int \<rightharpoonup> nat) \<Rightarrow> fetch_result \<Rightarrow> summary \<times> (int \<rightharpoonup> nat)" where
  "report_body acc r =
     (let st = num_or (status r) 0
      in (count_status (fst acc) st, count_key (snd acc) st))"

fun report_loop :: "fetch_result list \<Rightarrow> summary \<times> (int \<rightharpoonup> nat) \<Rightarrow> summary \<times> (int \<rightharpoonup> nat)" where
  "report_loop [] acc = acc"
| "report_loop (r # rs) acc = report_loop rs (report_body acc r)"

definition by_status :: "fetch_result \<Rightarrow> fetch_result \<Rightarrow> int" where
  \<comment> \<open>The comparator \<open>(a, b) => (a.status || 999) - (b.status || 999)\<close>.\<close>
  "by_status a b = num_or (status a) 999 - num_or (status b) 999"

text \<open>
  \<open>Array.prototype.sort\<close> is a stable sort by the comparator (ECMAScript 2019): an element
  is placed before the first element it compares strictly below, so elements that compare
  equal keep their order of arrival.
\<close>

fun insert_by :: "('a \<Rightarrow> 'a \<Rightarrow> int) \<Rightarrow> 'a \<Rightarrow> 'a list \<Rightarrow> 'a list" where
  "insert_by cmp x [] = [x]"
| "insert_by cmp x (y # ys) =
     (if cmp x y < 0 then x # y # ys else y # insert_by cmp x ys)"

definition sort_by :: "('a \<Rightarrow> 'a \<Rightarrow> int) \<Rightarrow> 'a list \<Rightarrow> 'a list" where
  "sort_by cmp xs = foldl (\<lambda>acc x. insert_by cmp x acc) [] xs"

record report =
  summary :: summary
  byStatus :: "int \<rightharpoonup> nat"
  results :: "fetch_result list"
  timestamp :: string

definition generateReport :: "string \<Rightarrow> fetch_result list \<Rightarrow> report" where
  \<comment> \<open>The first argument is the clock reading \<open>new Date().toISOString()\<close>.\<close>
  "generateReport now rs =
     (let acc = report_loop rs (summary0 (length rs), Map.empty)
      in \<lparr>summary = fst acc, byStatus = snd acc,
          results = sort_by by_status rs, timestamp = now\<rparr>)"

section \<open>check-links: the command line\<close>

fun getArg :: "string list \<Rightarrow> string list \<Rightarrow> string option" where
  \<comment> \<open>\<open>getArg(args, ...flags)\<close>: the argument after the first flag that has a non-empty one.\<close>
  "getArg args [] = None"
| "getArg args (flag # flags) =
     (case indexOf args flag of
        None \<Rightarrow> getArg args flags
      | Some idx \<Rightarrow>
          (case at args (idx + 1) of
             None \<Rightarrow> getArg args flags
           | Some v \<Rightarrow> if v = [] then getArg args flags else Some v))"

definition parse_concurrency :: "string list \<Rightarrow> config \<Rightarrow> string + config" where
  \<comment> \<open>The block "Parse concurrency option" of \<open>main\<close>; \<open>Inl\<close> is the message printed
      before \<open>process.exit(1)\<close>.\<close>
  "parse_concurrency args cfg =
     (case getArg args [''-c'', ''--concurrency''] of
        None \<Rightarrow> Inr cfg
      | Some concurrencyArg \<Rightarrow>
          (case parseInt concurrencyArg of
             None \<Rightarrow> Inl ''Concurrency must be between 1 and 20''
           | Some n \<Rightarrow>
               if n > 0 \<and> n \<le> 20 then Inr (cfg\<lparr>concurrency := nat n\<rparr>)
               else Inl ''Concurrency must be between 1 and 20''))"

definition main_urls :: "string list \<Rightarrow> string \<Rightarrow> (string \<rightharpoonup> string) \<Rightarrow> string + target list" where
  \<comment> \<open>The block "Parse arguments" of \<open>main\<close> and the test for an empty list, given the
      arguments, the text on standard input and the files that exist; \<open>Inl\<close> is the message
      printed before \<open>process.exit(1)\<close>, \<open>Inr\<close> the list passed to \<open>processUrls\<close>.\<close>
  "main_urls args stdin fs =
     (let chosen =
            (case indexOf args ''--url'' of
               Some idx \<Rightarrow> Inr [at args (idx + 1)]
             | None \<Rightarrow>
                 if ''--stdin'' \<in> set args
                 then Inr (map Some (filter (\<lambda>u. prefix ''http'' (trim u)) (split_nl stdin)))
                 else (case args of
                         [] \<Rightarrow> Inl ''Usage''
                       | a # _ \<Rightarrow>
                           (case fs a of
                              None \<Rightarrow> Inl ''Usage''
                            | Some content \<Rightarrow> Inr (map Some (extractUrls content)))))
      in case chosen of
           Inl e \<Rightarrow> Inl e
         | Inr urls \<Rightarrow> if urls = [] then Inl ''No URLs found.'' else Inr urls)"

section \<open>refresh-data: the extractors\<close>

datatype extractor = instagram | statista | generic

definition getExtractor :: "string \<Rightarrow> extractor" where
  "getExtractor u =
     (if includes_s u ''instagram.com'' then instagram
      else if includes_s u ''statista.com'' then statista
      else generic)"

text \<open>
  The table of the design, in its words: an ordered list of match predicates with their
  extractor kinds, the first match wins, and a catch-all entry comes last.
\<close>

definition spec_registry :: "((string \<Rightarrow> bool) \<times> extractor) list" where
  "spec_registry =
     [(\<lambda>u. sublist ''instagram.com'' u, instagram),
      (\<lambda>u. sublist ''statista.com'' u, statista),
      (\<lambda>u. True, generic)]"

fun spec_dispatch :: "((string \<Rightarrow> bool) \<times> 'k) list \<Rightarrow> string \<Rightarrow> 'k option" where
  "spec_dispatch [] u = None"
| "spec_dispatch ((p, k) # es) u = (if p u then Some k else spec_dispatch es u)"

text \<open>
  An awaited call of the browser returns a value or throws an error with a message.
  \<open>extractData\<close> opens and configures a page, runs the strategy inside \<open>try\<close>, builds the
  failure record in \<open>catch\<close>, and closes the page in \<open>finally\<close>.
\<close>

datatype 'a outcome = Returned 'a | Threw string

record 'd extraction =
  ex_url :: string
  ex_type :: extractor
  ex_data :: "'d option"
  ex_success :: bool
  ex_error :: "string option"
  ex_timestamp :: string

definition extractData ::
  "string \<Rightarrow> unit outcome \<Rightarrow> 'd outcome \<Rightarrow> unit outcome \<Rightarrow> string \<Rightarrow> string + 'd extraction" where
  \<comment> \<open>The arguments after the URL: the outcome of opening and configuring the page, of
      the strategy (the fields it extracts), of \<open>page.close()\<close>, and the clock reading.
      \<open>Inl\<close> is an error thrown to the caller.\<close>
  "extractData u opened strategy closed now =
     (case opened of
        Threw e \<Rightarrow> Inl e
      | Returned _ \<Rightarrow>
          (let extractorName = getExtractor u;
               result =
                 (case strategy of
                    Returned d \<Rightarrow>
                      \<lparr>ex_url = u, ex_type = extractorName, ex_data = Some d,
                       ex_success = True, ex_error = None, ex_timestamp = now\<rparr>
                  | Threw e \<Rightarrow>
                      \<lparr>ex_url = u, ex_type = extractorName, ex_data = None,
                       ex_success = False, ex_error = Some e, ex_timestamp = now\<rparr>)
           in case closed of
                Threw e \<Rightarrow> Inl e
              | Returned _ \<Rightarrow> Inr result))"

section \<open>Definitions used in the statements and proofs\<close>

definition sort_status :: "fetch_result \<Rightarrow> int" where
  \<comment> \<open>The sort key of the comparator: \<open>r.status || 999\<close>.\<close>
  "sort_status r = num_or (status r) 999"

definition bsum :: "summary \<Rightarrow> nat" where
  "bsum s = ok s + redirects s + blocked s + clientErrors s + serverErrors s + failed s"

definition msum :: "(int \<rightharpoonup> nat) \<Rightarrow> nat" where
  "msum m = (\<Sum>k\<in>dom m. the (m k))"

definition holding :: "pc \<Rightarrow> string list" where
  \<comment> \<open>The target a suspended worker is working on.\<close>
  "holding p = (case p of Fetch1 u \<Rightarrow> [u] | Backoff u \<Rightarrow> [u] | Fetch2 u \<Rightarrow> [u] | _ \<Rightarrow> [])"

definition accounted :: "pool \<Rightarrow> string multiset" where
  "accounted s = mset (map url (pushed s)) + mset (concat (map holding (workers s)))
                 + mset (map the (queue s))"

definition left :: "pc \<Rightarrow> bool" where
  \<comment> \<open>The worker has left its loop.\<close>
  "left p = (p = Closing \<or> p = Finished)"

definition sound :: "pool \<Rightarrow> bool" where
  "sound s = ((\<forall>t\<in>set (queue s). \<not> falsy t) \<and>
              ((\<exists>p\<in>set (workers s). left p) \<longrightarrow> queue s = []))"

definition honest :: "pool \<Rightarrow> bool" where
  \<comment> \<open>A worker that has thrown has rejected \<open>Promise.all\<close>.\<close>
  "honest s = (Crashed \<in> set (workers s) \<longrightarrow> rejected s \<noteq> None)"

definition ended :: "pool \<Rightarrow> bool" where
  "ended s = list_all (\<lambda>p. p = Finished \<or> p = Crashed) (workers s)"

definition calm :: "pc \<Rightarrow> completion" where
  \<comment> \<open>A completion that the awaited operation of a suspended worker can have, no
      set-up and no close rejecting.\<close>
  "calm p = (case p of Fetch1 u \<Rightarrow> Navigated (Thrown []) 0
                     | Fetch2 u \<Rightarrow> Navigated (Thrown []) 0
                     | _ \<Rightarrow> Resolved)"

definition weight :: "pc \<Rightarrow> nat" where
  "weight p = (case p of Start \<Rightarrow> 2 | Fetch1 u \<Rightarrow> 4 | Backoff u \<Rightarrow> 3 | Fetch2 u \<Rightarrow> 2
               | Closing \<Rightarrow> 1 | Finished \<Rightarrow> 0 | Crashed \<Rightarrow> 0)"

definition steps_left :: "pool \<Rightarrow> nat" where
  \<comment> \<open>A bound on the number of events the pool can still take.\<close>
  "steps_left s = sum_list (map weight (workers s)) + 3 * length (queue s)"

text \<open>
  Where a target is in a state of the pool: how often it is in the queue, with a worker
  in its first attempt, with a worker in its pause or second attempt; and what has been
  attempted and pushed for it so far.
\<close>

definition waiting :: "pool \<Rightarrow> string \<Rightarrow> nat" where
  "waiting s u = length (filter (\<lambda>t. t = Some u) (queue s))"

definition trying :: "pool \<Rightarrow> string \<Rightarrow> nat" where
  "trying s u = length (filter (\<lambda>p. p = Fetch1 u) (workers s))"

definition retrying :: "pool \<Rightarrow> string \<Rightarrow> nat" where
  "retrying s u = length (filter (\<lambda>p. p = Backoff u \<or> p = Fetch2 u) (workers s))"

definition about :: "string \<Rightarrow> fetch_result list \<Rightarrow> fetch_result list" where
  "about u rs = filter (\<lambda>r. url r = u) rs"

definition settled :: "config \<Rightarrow> fetch_result list \<Rightarrow> fetch_result list \<Rightarrow> bool" where
  \<comment> \<open>The attempts and the pushed results of a target that is done: one attempt that
      called for no retry, or a first attempt with status 0 and a second one; the last
      attempt is what has been pushed.\<close>
  "settled cfg a d =
     ((\<exists>r. a = [r] \<and> \<not> (status r = Some 0 \<and> 0 < retries cfg) \<and> d = [r]) \<or>
      (\<exists>r1 r2. a = [r1, r2] \<and> status r1 = Some 0 \<and> 0 < retries cfg \<and> d = [r2]))"

definition tracked :: "config \<Rightarrow> pool \<Rightarrow> fetch_result list \<Rightarrow> string \<Rightarrow> bool" where
  "tracked cfg s past u =
     (waiting s u + trying s u + retrying s u \<le> 1 \<and>
      (0 < waiting s u + trying s u \<longrightarrow> about u past = [] \<and> about u (pushed s) = []) \<and>
      (0 < retrying s u \<longrightarrow>
         (\<exists>r. about u past = [r] \<and> status r = Some 0 \<and> 0 < retries cfg) \<and>
         about u (pushed s) = []) \<and>
      (waiting s u + trying s u + retrying s u = 0 \<longrightarrow>
         (about u past = [] \<and> about u (pushed s) = []) \<or>
         settled cfg (about u past) (about u (pushed s))))"

text \<open>The decimal numeral of a natural number, as it is typed on the command line.\<close>

definition digit_char :: "nat \<Rightarrow> char" where
  "digit_char d = char_of (48 + d)"

fun decimal :: "nat \<Rightarrow> string" where
  "decimal n = (if n < 10 then [digit_char n] else decimal (n div 10) @ [digit_char (n mod 10)])"

declare decimal.simps [simp del]

section \<open>Facts about parseInt\<close>

lemma of_char_digit_char: "d < 10 \<Longrightarrow> (of_char (digit_char d) :: nat) = 48 + d"
  by (simp add: digit_char_def)

lemma is_digit_digit_char: "d < 10 \<Longrightarrow> is_digit (digit_char d)"
  by (simp add: is_digit_def of_char_digit_char)

lemma digits_value_snoc:
  "digits_value (ds @ [c]) = 10 * digits_value ds + (int (of_char c) - 48)"
  by (simp add: digits_value_def)

lemma decimal_digits: "c \<in> set (decimal n) \<Longrightarrow> is_digit c"
proof (induction n rule: decimal.induct)
  case (1 n)
  show ?case
  proof (cases "n < 10")
    case True
    then show ?thesis using 1(2) by (simp add: decimal.simps [of n] is_digit_digit_char)
  next
    case False
    then show ?thesis
      using 1 by (auto simp: decimal.simps [of n] is_digit_digit_char)
  qed
qed

lemma decimal_nonempty: "decimal n \<noteq> []"
  by (simp add: decimal.simps [of n])

lemma digits_value_decimal: "digits_value (decimal n) = int n"
proof (induction n rule: decimal.induct)
  case (1 n)
  show ?case
  proof (cases "n < 10")
    case True
    then show ?thesis
      by (simp add: decimal.simps [of n] digits_value_def of_char_digit_char)
  next
    case False
    have m: "n mod 10 < 10" by simp
    have "digits_value (decimal n) = 10 * int (n div 10) + int (n mod 10)"
      using False 1 by (simp add: decimal.simps [of n] digits_value_snoc of_char_digit_char [OF m])
    then show ?thesis by (simp add: zdiv_int zmod_int)
  qed
qed

lemma is_digit_plain: "is_digit c \<Longrightarrow> \<not> is_space c \<and> c \<noteq> CHR ''-'' \<and> c \<noteq> CHR ''+''"
  by (auto simp: is_digit_def is_space_def)

lemma takeWhile_decimal: "takeWhile is_digit (decimal n) = decimal n"
  using decimal_digits by (simp add: takeWhile_eq_all_conv)

lemma parseInt_decimal: "parseInt (decimal n) = Some (int n)"
proof -
  obtain c cs where d: "decimal n = c # cs"
    using decimal_nonempty [of n] by (cases "decimal n") auto
  then have "is_digit c" using decimal_digits [of c n] by simp
  then have p: "\<not> is_space c" "c \<noteq> CHR ''-''" "c \<noteq> CHR ''+''"
    using is_digit_plain by blast+
  have t: "takeWhile is_digit (c # cs) = c # cs" using takeWhile_decimal [of n] d by simp
  have "parseInt (c # cs) = Some (digits_value (c # cs))"
    using p t by (simp add: parseInt_def)
  then show ?thesis using d digits_value_decimal [of n] by simp
qed

lemma parseInt_minus_decimal: "parseInt (CHR ''-'' # decimal n) = Some (- int n)"
proof -
  have s: "\<not> is_space CHR ''-''" by (simp add: is_space_def)
  have ne: "takeWhile is_digit (decimal n) \<noteq> []"
    unfolding takeWhile_decimal by (rule decimal_nonempty)
  have "parseInt (CHR ''-'' # decimal n) = Some (- digits_value (takeWhile is_digit (decimal n)))"
    using s ne by (simp add: parseInt_def)
  then show ?thesis by (simp add: takeWhile_decimal digits_value_decimal)
qed

section \<open>Facts about generateReport\<close>

lemma bsum_count_status: "bsum (count_status s st) = bsum s + 1"
  by (simp add: bsum_def count_status_def)

lemma total_count_status: "total_n (count_status s st) = total_n s"
  by (simp add: count_status_def)

lemma dom_count_key: "dom (count_key m k) = insert k (dom m)"
  by (simp add: count_key_def)

lemma msum_count_key:
  assumes fin: "finite (dom m)"
  shows "msum (count_key m k0) = msum m + 1"
proof (cases "m k0")
  case None
  then have notin: "k0 \<notin> dom m" by (simp add: domIff)
  have "msum (count_key m k0) = (\<Sum>k\<in>insert k0 (dom m). the (count_key m k0 k))"
    by (simp add: msum_def dom_count_key)
  also have "\<dots> = the (count_key m k0 k0) + (\<Sum>k\<in>dom m. the (count_key m k0 k))"
    using fin notin by simp
  also have "(\<Sum>k\<in>dom m. the (count_key m k0 k)) = (\<Sum>k\<in>dom m. the (m k))"
    using notin by (intro sum.cong) (auto simp: count_key_def)
  finally have "msum (count_key m k0) = the (count_key m k0 k0) + (\<Sum>k\<in>dom m. the (m k))" .
  moreover have "the (count_key m k0 k0) = 1" using None by (simp add: count_key_def)
  ultimately show ?thesis by (simp add: msum_def)
next
  case (Some c)
  then have isin: "k0 \<in> dom m" by (simp add: domIff)
  then have d: "dom (count_key m k0) = dom m" by (auto simp: dom_count_key)
  have "msum (count_key m k0) =
          the (count_key m k0 k0) + (\<Sum>k\<in>dom m - {k0}. the (count_key m k0 k))"
    using fin isin by (simp add: msum_def d sum.remove)
  also have "(\<Sum>k\<in>dom m - {k0}. the (count_key m k0 k)) = (\<Sum>k\<in>dom m - {k0}. the (m k))"
    by (intro sum.cong) (auto simp: count_key_def)
  also have "the (count_key m k0 k0) = the (m k0) + 1"
    using Some by (simp add: count_key_def)
  finally have "msum (count_key m k0) = (the (m k0) + (\<Sum>k\<in>dom m - {k0}. the (m k))) + 1"
    by simp
  also have "the (m k0) + (\<Sum>k\<in>dom m - {k0}. the (m k)) = msum m"
    using fin isin by (simp add: msum_def sum.remove)
  finally show ?thesis .
qed

lemma report_loop_sums:
  "finite (dom (snd acc)) \<Longrightarrow>
     bsum (fst (report_loop rs acc)) = bsum (fst acc) + length rs \<and>
     total_n (fst (report_loop rs acc)) = total_n (fst acc) \<and>
     finite (dom (snd (report_loop rs acc))) \<and>
     msum (snd (report_loop rs acc)) = msum (snd acc) + length rs"
proof (induction rs arbitrary: acc)
  case Nil
  then show ?case by simp
next
  case (Cons r rs)
  have fin: "finite (dom (snd (report_body acc r)))"
    using Cons.prems by (simp add: report_body_def Let_def dom_count_key)
  from Cons.IH [OF fin] show ?case
    using Cons.prems
    by (simp add: report_body_def Let_def bsum_count_status total_count_status msum_count_key)
qed

lemma report_loop_counts:
  "ok (fst (report_loop rs acc)) =
     ok (fst acc) + length (filter (\<lambda>r. 200 \<le> num_or (status r) 0 \<and> num_or (status r) 0 < 300) rs)"
  "redirects (fst (report_loop rs acc)) =
     redirects (fst acc) + length (filter (\<lambda>r. 300 \<le> num_or (status r) 0 \<and> num_or (status r) 0 < 400) rs)"
  "blocked (fst (report_loop rs acc)) =
     blocked (fst acc) + length (filter (\<lambda>r. num_or (status r) 0 = 403) rs)"
  "clientErrors (fst (report_loop rs acc)) =
     clientErrors (fst acc) + length (filter (\<lambda>r. 400 \<le> num_or (status r) 0 \<and> num_or (status r) 0 < 500
                                                  \<and> num_or (status r) 0 \<noteq> 403) rs)"
  "serverErrors (fst (report_loop rs acc)) =
     serverErrors (fst acc) + length (filter (\<lambda>r. 500 \<le> num_or (status r) 0) rs)"
  "failed (fst (report_loop rs acc)) =
     failed (fst acc) + length (filter (\<lambda>r. num_or (status r) 0 < 200) rs)"
  by (induction rs arbitrary: acc; simp add: report_body_def Let_def count_status_def)+

section \<open>Facts about the sort of the results\<close>

lemma by_status_neg: "by_status a b < 0 \<longleftrightarrow> sort_status a < sort_status b"
  by (simp add: by_status_def sort_status_def)

lemma mset_insert_by: "mset (insert_by cmp x ys) = add_mset x (mset ys)"
  by (induction ys) auto

lemma set_insert_by: "set (insert_by cmp x ys) = insert x (set ys)"
  by (induction ys) auto

lemma sorted_insert_by:
  "sorted (map sort_status ys) \<Longrightarrow> sorted (map sort_status (insert_by by_status x ys))"
  by (induction ys) (auto simp: by_status_neg set_insert_by)

lemma filter_insert_by:
  "sorted (map sort_status ys) \<Longrightarrow>
   filter (\<lambda>r. sort_status r = k) (insert_by by_status x ys) =
   filter (\<lambda>r. sort_status r = k) (ys @ [x])"
proof (induction ys)
  case Nil
  then show ?case by simp
next
  case (Cons y ys)
  show ?case
  proof (cases "by_status x y < 0")
    case True
    then have lt: "sort_status x < sort_status y" by (simp add: by_status_neg)
    show ?thesis
    proof (cases "sort_status x = k")
      case True
      have "\<forall>z\<in>set (y # ys). sort_status z \<noteq> k"
        using Cons.prems lt True by auto
      then have e: "filter (\<lambda>r. sort_status r = k) (y # ys) = []"
        by (simp only: filter_empty_conv)
      have "filter (\<lambda>r. sort_status r = k) (insert_by by_status x (y # ys)) =
            x # filter (\<lambda>r. sort_status r = k) (y # ys)"
        using True \<open>by_status x y < 0\<close> by simp
      also have "\<dots> = filter (\<lambda>r. sort_status r = k) (y # ys) @ [x]"
        by (simp only: e) simp
      also have "\<dots> = filter (\<lambda>r. sort_status r = k) ((y # ys) @ [x])"
        using True by simp
      finally show ?thesis .
    next
      case False
      then show ?thesis using \<open>by_status x y < 0\<close> by simp
    qed
  next
    case False
    then show ?thesis using Cons by simp
  qed
qed

lemma foldl_insert_by:
  "sorted (map sort_status acc) \<Longrightarrow>
   sorted (map sort_status (foldl (\<lambda>a x. insert_by by_status x a) acc xs)) \<and>
   mset (foldl (\<lambda>a x. insert_by by_status x a) acc xs) = mset acc + mset xs \<and>
   filter (\<lambda>r. sort_status r = k) (foldl (\<lambda>a x. insert_by by_status x a) acc xs) =
     filter (\<lambda>r. sort_status r = k) (acc @ xs)"
proof (induction xs arbitrary: acc)
  case Nil
  then show ?case by simp
next
  case (Cons x xs)
  have s: "sorted (map sort_status (insert_by by_status x acc))"
    using Cons.prems by (rule sorted_insert_by)
  from Cons.IH [OF s] show ?case
    using filter_insert_by [OF Cons.prems, of k x] by (simp add: mset_insert_by)
qed

lemma sort_by_status_props:
  "sorted (map sort_status (sort_by by_status rs))"
  "mset (sort_by by_status rs) = mset rs"
  "filter (\<lambda>r. sort_status r = k) (sort_by by_status rs) = filter (\<lambda>r. sort_status r = k) rs"
  using foldl_insert_by [of "[]" rs k] by (simp_all add: sort_by_def)

text \<open>
  The comparator is consistent, so the sort of \<open>generateReport\<close> computes what any stable
  sort by the key computes: the library's \<open>sort_key\<close>.
\<close>

lemma sort_by_status_sort_key: "sort_by by_status rs = sort_key sort_status rs"
proof (rule sym, rule properties_for_sort_key)
  show "mset (sort_by by_status rs) = mset rs" by (rule sort_by_status_props)
  show "sorted (map sort_status (sort_by by_status rs))" by (rule sort_by_status_props)
  fix k assume "k \<in> set (sort_by by_status rs)"
  have "filter (\<lambda>r. sort_status r = sort_status k) (sort_by by_status rs) =
        filter (\<lambda>r. sort_status r = sort_status k) rs"
    by (rule sort_by_status_props)
  then show "filter (\<lambda>x. sort_status k = sort_status x) (sort_by by_status rs) =
        filter (\<lambda>x. sort_status k = sort_status x) rs"
    by (simp add: eq_commute)
qed

lemma sorted_missing_last:
  assumes srt: "sorted (map sort_status out)"
    and i: "i < length out" and j: "j < length out"
    and mi: "num_or (status (out ! i)) 0 = 0"
    and sj: "0 < num_or (status (out ! j)) 0" "num_or (status (out ! j)) 0 < 999"
  shows "j < i"
proof (rule ccontr)
  assume "\<not> j < i"
  then have le: "i \<le> j" by simp
  have ki: "sort_status (out ! i) = 999"
    using mi by (auto simp: sort_status_def num_or_def split: option.splits if_splits)
  have kj: "sort_status (out ! j) < 999"
    using sj by (auto simp: sort_status_def num_or_def split: option.splits if_splits)
  have "map sort_status out ! i \<le> map sort_status out ! j"
    using srt le j by (simp add: sorted_iff_nth_mono)
  then show False using ki kj i j by simp
qed

section \<open>Facts about the worker pool\<close>

lemma url_checkUrl: "url (checkUrl u nav ms) = u"
  by (simp add: checkUrl_def failure_def split: navigation.splits)

lemma http_target_truthy: "http_target t \<Longrightarrow> \<not> falsy t"
  by (cases t) (auto simp: http_target_def falsy_def)

lemma count_update:
  "i < length ws \<Longrightarrow>
   length (filter P (ws[i := p])) + (if P (ws ! i) then 1 else 0) =
   length (filter P ws) + (if P p then 1 else (0::nat))"
proof (induction ws arbitrary: i)
  case Nil
  then show ?case by simp
next
  case (Cons w ws)
  show ?case
  proof (cases i)
    case 0
    then show ?thesis by simp
  next
    case (Suc j)
    then have "j < length ws" using Cons.prems by simp
    from Cons.IH [OF this] show ?thesis using Suc by (simp split: if_splits)
  qed
qed

lemma holding_update:
  "i < length ws \<Longrightarrow>
   mset (concat (map holding (ws[i := p]))) + mset (holding (ws ! i)) =
   mset (concat (map holding ws)) + mset (holding p)"
  by (induction ws arbitrary: i) (auto split: nat.splits)

lemma weight_update:
  "i < length ws \<Longrightarrow>
   sum_list (map weight (ws[i := p])) + weight (ws ! i) = sum_list (map weight ws) + weight p"
  by (induction ws arbitrary: i) (auto split: nat.splits)

lemma resume_Some:
  assumes "resume cfg i c s = Some s'"
  shows "i < length (workers s) \<and>
    ((workers s ! i = Start \<and> c = Resolved \<and> s' = loop_head i s) \<or>
     (\<exists>e. workers s ! i = Start \<and> c = Rejected e \<and> s' = crash i e s) \<or>
     (\<exists>u nav ms. workers s ! i = Fetch1 u \<and> c = Navigated nav ms \<and>
        (status (checkUrl u nav ms) = Some 0 \<and> 0 < retries cfg) \<and>
        s' = goto_pc i (Backoff u) s) \<or>
     (\<exists>u nav ms. workers s ! i = Fetch1 u \<and> c = Navigated nav ms \<and>
        \<not> (status (checkUrl u nav ms) = Some 0 \<and> 0 < retries cfg) \<and>
        s' = loop_head i (push (checkUrl u nav ms) s)) \<or>
     (\<exists>u. workers s ! i = Backoff u \<and> c = Resolved \<and> s' = goto_pc i (Fetch2 u) s) \<or>
     (\<exists>u nav ms. workers s ! i = Fetch2 u \<and> c = Navigated nav ms \<and>
        s' = loop_head i (push (checkUrl u nav ms) s)) \<or>
     (workers s ! i = Closing \<and> c = Resolved \<and> s' = goto_pc i Finished s) \<or>
     (\<exists>e. workers s ! i = Closing \<and> c = Rejected e \<and> s' = crash i e s))"
proof -
  from assms have i: "i < length (workers s)"
    by (auto simp: resume_def split: if_splits)
  show ?thesis
    using assms i
    by (cases "workers s ! i"; cases c) (auto simp: resume_def Let_def split: if_splits)
qed

lemma resume_elim:
  assumes r: "resume cfg i c s = Some s'"
    and "\<lbrakk>i < length (workers s); workers s ! i = Start; c = Resolved; s' = loop_head i s\<rbrakk> \<Longrightarrow> P"
    and "\<And>e. \<lbrakk>i < length (workers s); workers s ! i = Start; c = Rejected e;
              s' = crash i e s\<rbrakk> \<Longrightarrow> P"
    and "\<And>u nav ms. \<lbrakk>i < length (workers s); workers s ! i = Fetch1 u; c = Navigated nav ms;
              status (checkUrl u nav ms) = Some 0 \<and> 0 < retries cfg;
              s' = goto_pc i (Backoff u) s\<rbrakk> \<Longrightarrow> P"
    and "\<And>u nav ms. \<lbrakk>i < length (workers s); workers s ! i = Fetch1 u; c = Navigated nav ms;
              \<not> (status (checkUrl u nav ms) = Some 0 \<and> 0 < retries cfg);
              s' = loop_head i (push (checkUrl u nav ms) s)\<rbrakk> \<Longrightarrow> P"
    and "\<And>u. \<lbrakk>i < length (workers s); workers s ! i = Backoff u; c = Resolved;
              s' = goto_pc i (Fetch2 u) s\<rbrakk> \<Longrightarrow> P"
    and "\<And>u nav ms. \<lbrakk>i < length (workers s); workers s ! i = Fetch2 u; c = Navigated nav ms;
              s' = loop_head i (push (checkUrl u nav ms) s)\<rbrakk> \<Longrightarrow> P"
    and "\<lbrakk>i < length (workers s); workers s ! i = Closing; c = Resolved;
              s' = goto_pc i Finished s\<rbrakk> \<Longrightarrow> P"
    and "\<And>e. \<lbrakk>i < length (workers s); workers s ! i = Closing; c = Rejected e;
              s' = crash i e s\<rbrakk> \<Longrightarrow> P"
  shows P
  using resume_Some [OF r] assms(2-) by blast

subsection \<open>The number of workers\<close>

lemma length_workers_goto: "length (workers (goto_pc i p s)) = length (workers s)"
  by (simp add: goto_pc_def)

lemma length_workers_loop_head: "length (workers (loop_head i s)) = length (workers s)"
  by (simp add: loop_head_def goto_pc_def split: list.splits option.splits)

lemma length_workers_crash: "length (workers (crash i e s)) = length (workers s)"
  by (simp add: crash_def goto_pc_def)

lemma length_workers_resume:
  "resume cfg i c s = Some s' \<Longrightarrow> length (workers s') = length (workers s)"
  by (erule resume_elim)
     (simp_all add: length_workers_goto length_workers_loop_head length_workers_crash push_def)

lemma run_Cons:
  "run cfg (e # es) s = Some s' \<Longrightarrow>
   \<exists>s1. resume cfg (fst e) (snd e) s = Some s1 \<and> run cfg es s1 = Some s'"
  by (cases e) (auto split: option.splits)

lemma length_workers_run:
  "run cfg es s = Some s' \<Longrightarrow> length (workers s') = length (workers s)"
proof (induction es arbitrary: s)
  case Nil
  then show ?case by simp
next
  case (Cons e es)
  from run_Cons [OF Cons.prems] obtain s1
    where r: "resume cfg (fst e) (snd e) s = Some s1" and rest: "run cfg es s1 = Some s'"
    by blast
  show ?case using Cons.IH [OF rest] length_workers_resume [OF r] by simp
qed

lemma in_flight_le: "in_flight s \<le> length (workers s)"
  by (simp add: in_flight_def)

lemma in_flight_run:
  "run cfg es (init cfg urls) = Some s \<Longrightarrow> in_flight s \<le> concurrency cfg"
  using length_workers_run [of cfg es "init cfg urls" s] in_flight_le [of s]
  by (simp add: init_def)

subsection \<open>Every target is in the queue, with a worker, or pushed\<close>

lemma accounted_push: "accounted (push r s) = accounted s + {#url r#}"
  by (simp add: accounted_def push_def)

lemma accounted_goto:
  "i < length (workers s) \<Longrightarrow>
   accounted (goto_pc i p s) + mset (holding (workers s ! i)) = accounted s + mset (holding p)"
  using holding_update [of i "workers s" p]
  by (simp add: accounted_def goto_pc_def ac_simps)

lemma accounted_crash:
  assumes i: "i < length (workers s)"
  shows "accounted (crash i e s) + mset (holding (workers s ! i)) = accounted s"
proof -
  let ?s = "s\<lparr>rejected := (case rejected s of None \<Rightarrow> Some e | Some e0 \<Rightarrow> Some e0)\<rparr>"
  have "accounted (goto_pc i Crashed ?s) + mset (holding (workers ?s ! i)) =
        accounted ?s + mset (holding Crashed)"
    using i by (intro accounted_goto) simp
  moreover have "accounted ?s = accounted s" by (simp add: accounted_def)
  ultimately show ?thesis by (simp add: crash_def holding_def)
qed

lemma accounted_loop_head:
  assumes i: "i < length (workers s)" and q: "\<forall>t\<in>set (queue s). \<not> falsy t"
  shows "accounted (loop_head i s) + mset (holding (workers s ! i)) = accounted s"
proof (cases "queue s")
  case Nil
  then have "loop_head i s = goto_pc i Closing s" by (simp add: loop_head_def)
  then show ?thesis using accounted_goto [OF i, of Closing] by (simp add: holding_def)
next
  case (Cons t q')
  with q obtain u where t: "t = Some u" and u: "u \<noteq> []"
    by (cases t) (auto simp: falsy_def)
  let ?s = "s\<lparr>queue := q'\<rparr>"
  have lh: "loop_head i s = goto_pc i (Fetch1 u) ?s"
    using Cons t u by (simp add: loop_head_def)
  have "accounted (goto_pc i (Fetch1 u) ?s) + mset (holding (workers ?s ! i)) =
        accounted ?s + mset (holding (Fetch1 u))"
    using i by (intro accounted_goto) simp
  moreover have "accounted s = accounted ?s + {#u#}"
    using Cons t by (simp add: accounted_def)
  ultimately show ?thesis by (simp add: lh holding_def)
qed

lemma accounted_release:
  assumes i: "i < length (workers s)" and q: "\<forall>t\<in>set (queue s). \<not> falsy t"
    and h: "holding (workers s ! i) = [url r]"
  shows "accounted (loop_head i (push r s)) = accounted s"
proof -
  have "accounted (loop_head i (push r s)) + mset (holding (workers (push r s) ! i)) =
        accounted (push r s)"
    using i q by (intro accounted_loop_head) (simp_all add: push_def)
  moreover have "workers (push r s) ! i = workers s ! i" by (simp add: push_def)
  ultimately show ?thesis using h by (simp add: accounted_push)
qed

lemma accounted_resume:
  assumes r: "resume cfg i c s = Some s'" and q: "\<forall>t\<in>set (queue s). \<not> falsy t"
  shows "accounted s' = accounted s"
proof (rule resume_elim [OF r])
  assume "i < length (workers s)" "workers s ! i = Start" "s' = loop_head i s"
  then show ?thesis using accounted_loop_head [OF _ q, of i] by (simp add: holding_def)
next
  fix e assume "i < length (workers s)" "workers s ! i = Start" "s' = crash i e s"
  then show ?thesis using accounted_crash [of i s e] by (simp add: holding_def)
next
  fix u nav ms
  assume "i < length (workers s)" "workers s ! i = Fetch1 u" "s' = goto_pc i (Backoff u) s"
  then show ?thesis using accounted_goto [of i s "Backoff u"] by (simp add: holding_def)
next
  fix u nav ms
  assume "i < length (workers s)" "workers s ! i = Fetch1 u"
    "s' = loop_head i (push (checkUrl u nav ms) s)"
  then show ?thesis
    using accounted_release [OF _ q, of i "checkUrl u nav ms"]
    by (simp add: holding_def url_checkUrl)
next
  fix u assume "i < length (workers s)" "workers s ! i = Backoff u" "s' = goto_pc i (Fetch2 u) s"
  then show ?thesis using accounted_goto [of i s "Fetch2 u"] by (simp add: holding_def)
next
  fix u nav ms
  assume "i < length (workers s)" "workers s ! i = Fetch2 u"
    "s' = loop_head i (push (checkUrl u nav ms) s)"
  then show ?thesis
    using accounted_release [OF _ q, of i "checkUrl u nav ms"]
    by (simp add: holding_def url_checkUrl)
next
  assume "i < length (workers s)" "workers s ! i = Closing" "s' = goto_pc i Finished s"
  then show ?thesis using accounted_goto [of i s Finished] by (simp add: holding_def)
next
  fix e assume "i < length (workers s)" "workers s ! i = Closing" "s' = crash i e s"
  then show ?thesis using accounted_crash [of i s e] by (simp add: holding_def)
qed

lemma left_update:
  "\<not> left p \<Longrightarrow> \<exists>x\<in>set (ws[i := p]). left x \<Longrightarrow> \<exists>x\<in>set ws. left x"
  using set_update_subset_insert [of ws i p] by auto

lemma sound_goto_busy:
  "sound s \<Longrightarrow> \<not> left p \<Longrightarrow> sound (goto_pc i p s)"
  using left_update [of p "workers s" i] by (auto simp: sound_def goto_pc_def)

lemma sound_push: "sound (push r s) = sound s"
  by (simp add: sound_def push_def)

lemma sound_crash: "sound s \<Longrightarrow> sound (crash i e s)"
proof -
  assume s: "sound s"
  let ?s = "s\<lparr>rejected := (case rejected s of None \<Rightarrow> Some e | Some e0 \<Rightarrow> Some e0)\<rparr>"
  have "sound ?s" using s by (simp add: sound_def)
  then have "sound (goto_pc i Crashed ?s)" by (rule sound_goto_busy) (simp add: left_def)
  then show "sound (crash i e s)" by (simp add: crash_def)
qed

lemma sound_loop_head:
  assumes "sound s"
  shows "sound (loop_head i s)"
proof (cases "queue s")
  case Nil
  then show ?thesis using assms by (simp add: loop_head_def sound_def goto_pc_def)
next
  case (Cons t q')
  with assms obtain u where t: "t = Some u" and u: "u \<noteq> []"
    by (cases t) (auto simp: falsy_def sound_def)
  have lh: "loop_head i s = goto_pc i (Fetch1 u) (s\<lparr>queue := q'\<rparr>)"
    using Cons t u by (simp add: loop_head_def)
  have none: "\<not> (\<exists>p\<in>set (workers s). left p)"
    using assms Cons by (auto simp: sound_def)
  have "\<not> (\<exists>p\<in>set ((workers s)[i := Fetch1 u]). left p)"
    using none left_update [of "Fetch1 u" "workers s" i] by (auto simp: left_def)
  then show ?thesis
    using assms Cons by (auto simp: lh sound_def goto_pc_def)
qed

lemma sound_resume:
  assumes r: "resume cfg i c s = Some s'" and snd: "sound s"
  shows "sound s'"
proof (rule resume_elim [OF r])
  assume "s' = loop_head i s"
  then show ?thesis using snd by (simp add: sound_loop_head)
next
  fix e assume "s' = crash i e s"
  then show ?thesis using snd by (simp add: sound_crash)
next
  fix u assume "s' = goto_pc i (Backoff u) s"
  then show ?thesis using snd by (simp add: sound_goto_busy left_def)
next
  fix u nav ms assume "s' = loop_head i (push (checkUrl u nav ms) s)"
  then show ?thesis using snd by (simp add: sound_loop_head sound_push)
next
  fix u assume "s' = goto_pc i (Fetch2 u) s"
  then show ?thesis using snd by (simp add: sound_goto_busy left_def)
next
  fix u nav ms assume "s' = loop_head i (push (checkUrl u nav ms) s)"
  then show ?thesis using snd by (simp add: sound_loop_head sound_push)
next
  assume i: "i < length (workers s)" and w: "workers s ! i = Closing"
    and s': "s' = goto_pc i Finished s"
  have "left (workers s ! i)" using w by (simp add: left_def)
  then have "queue s = []" using snd i by (auto simp: sound_def)
  then show ?thesis using snd by (simp add: s' sound_def goto_pc_def)
next
  fix e assume "s' = crash i e s"
  then show ?thesis using snd by (simp add: sound_crash)
qed

lemma sound_init: "\<forall>t\<in>set urls. \<not> falsy t \<Longrightarrow> sound (init cfg urls)"
  by (auto simp: sound_def init_def left_def)

lemma run_invariants:
  "run cfg es s = Some s' \<Longrightarrow> sound s \<Longrightarrow> sound s' \<and> accounted s' = accounted s"
proof (induction es arbitrary: s)
  case Nil
  then show ?case by simp
next
  case (Cons e es)
  from run_Cons [OF Cons.prems(1)] obtain s1
    where r: "resume cfg (fst e) (snd e) s = Some s1" and rest: "run cfg es s1 = Some s'"
    by blast
  have s1: "sound s1" using r Cons.prems(2) by (rule sound_resume)
  have a1: "accounted s1 = accounted s"
    using r Cons.prems(2) by (intro accounted_resume) (auto simp: sound_def)
  show ?case using Cons.IH [OF rest s1] a1 by simp
qed

lemma holding_finished:
  "list_all (\<lambda>p. p = Finished) ws \<Longrightarrow> concat (map holding ws) = []"
  by (induction ws) (auto simp: holding_def)

lemma finished_queue_empty:
  assumes fin: "all_finished s" and snd: "sound s" and ne: "workers s \<noteq> []"
  shows "queue s = []"
proof -
  from ne obtain p where p: "p \<in> set (workers s)" by (cases "workers s") auto
  with fin have "left p" by (auto simp: all_finished_def list_all_iff left_def)
  with p snd show ?thesis by (auto simp: sound_def)
qed

lemma finished_accounted:
  assumes fin: "all_finished s" and snd: "sound s" and ne: "workers s \<noteq> []"
  shows "accounted s = mset (map url (pushed s))"
  using fin finished_queue_empty [OF fin snd ne]
  by (simp add: accounted_def all_finished_def holding_finished)

lemma processUrls_Inr:
  assumes "processUrls cfg urls es = Some (Inr rs)"
  shows "\<exists>s. run cfg es (init cfg urls) = Some s \<and> rejected s = None \<and> all_finished s \<and>
             rs = pushed s"
  using assms by (auto simp: processUrls_def split: option.splits if_splits)

lemma processUrls_accounts:
  assumes c: "0 < concurrency cfg" and t: "\<forall>t\<in>set urls. \<not> falsy t"
    and p: "processUrls cfg urls es = Some (Inr rs)"
  shows "mset (map url rs) = mset (map the urls)"
proof -
  from processUrls_Inr [OF p] obtain s where r: "run cfg es (init cfg urls) = Some s"
    and fin: "all_finished s" and rs: "rs = pushed s"
    by blast
  from run_invariants [OF r sound_init [OF t]]
  have snd: "sound s" and acc: "accounted s = accounted (init cfg urls)" by simp_all
  have ne: "workers s \<noteq> []"
    using length_workers_run [OF r] c by (auto simp: init_def)
  have "concat (map holding (replicate n Start)) = []" for n
    by (induction n) (auto simp: holding_def)
  then have "accounted (init cfg urls) = mset (map the urls)"
    by (simp add: accounted_def init_def)
  then show ?thesis
    using finished_accounted [OF fin snd ne] acc rs by simp
qed

subsection \<open>Every run is finite and can be continued to its end\<close>

lemma steps_left_goto:
  "i < length (workers s) \<Longrightarrow>
   steps_left (goto_pc i p s) + weight (workers s ! i) = steps_left s + weight p"
  using weight_update [of i "workers s" p] by (simp add: steps_left_def goto_pc_def)

lemma steps_left_push: "steps_left (push r s) = steps_left s"
  by (simp add: steps_left_def push_def)

lemma steps_left_crash:
  assumes i: "i < length (workers s)"
  shows "steps_left (crash i e s) + weight (workers s ! i) = steps_left s"
proof -
  let ?s = "s\<lparr>rejected := (case rejected s of None \<Rightarrow> Some e | Some e0 \<Rightarrow> Some e0)\<rparr>"
  have "steps_left (goto_pc i Crashed ?s) + weight (workers ?s ! i) =
        steps_left ?s + weight Crashed"
    using i by (intro steps_left_goto) simp
  moreover have "steps_left ?s = steps_left s" by (simp add: steps_left_def)
  ultimately show ?thesis by (simp add: crash_def weight_def)
qed

lemma steps_left_loop_head:
  assumes i: "i < length (workers s)"
  shows "steps_left (loop_head i s) + weight (workers s ! i) \<le> steps_left s + 1"
proof (cases "queue s")
  case Nil
  then have "loop_head i s = goto_pc i Closing s" by (simp add: loop_head_def)
  then show ?thesis using steps_left_goto [OF i, of Closing] by (simp add: weight_def)
next
  case (Cons t q')
  let ?s = "s\<lparr>queue := q'\<rparr>"
  have i': "i < length (workers ?s)" using i by simp
  have q: "steps_left s = steps_left ?s + 3" using Cons by (simp add: steps_left_def)
  have "loop_head i s = goto_pc i Closing ?s \<or> (\<exists>u. loop_head i s = goto_pc i (Fetch1 u) ?s)"
    using Cons by (auto simp: loop_head_def split: option.splits)
  then show ?thesis
  proof
    assume "loop_head i s = goto_pc i Closing ?s"
    then show ?thesis using steps_left_goto [OF i', of Closing] q by (simp add: weight_def)
  next
    assume "\<exists>u. loop_head i s = goto_pc i (Fetch1 u) ?s"
    then obtain u where "loop_head i s = goto_pc i (Fetch1 u) ?s" ..
    then show ?thesis using steps_left_goto [OF i', of "Fetch1 u"] q by (simp add: weight_def)
  qed
qed

lemma steps_left_release:
  assumes i: "i < length (workers s)"
  shows "steps_left (loop_head i (push r s)) + weight (workers s ! i) \<le> steps_left s + 1"
proof -
  have "steps_left (loop_head i (push r s)) + weight (workers (push r s) ! i)
          \<le> steps_left (push r s) + 1"
    using i by (intro steps_left_loop_head) (simp add: push_def)
  moreover have "workers (push r s) ! i = workers s ! i" by (simp add: push_def)
  ultimately show ?thesis by (simp add: steps_left_push)
qed

lemma steps_left_resume:
  assumes r: "resume cfg i c s = Some s'"
  shows "steps_left s' < steps_left s"
proof (rule resume_elim [OF r])
  assume "i < length (workers s)" "workers s ! i = Start" "s' = loop_head i s"
  then show ?thesis using steps_left_loop_head [of i s] by (simp add: weight_def)
next
  fix e assume "i < length (workers s)" "workers s ! i = Start" "s' = crash i e s"
  then show ?thesis using steps_left_crash [of i s e] by (simp add: weight_def)
next
  fix u nav ms
  assume "i < length (workers s)" "workers s ! i = Fetch1 u" "s' = goto_pc i (Backoff u) s"
  then show ?thesis using steps_left_goto [of i s "Backoff u"] by (simp add: weight_def)
next
  fix u nav ms
  assume "i < length (workers s)" "workers s ! i = Fetch1 u"
    "s' = loop_head i (push (checkUrl u nav ms) s)"
  then show ?thesis
    using steps_left_release [of i s "checkUrl u nav ms"] by (simp add: weight_def)
next
  fix u assume "i < length (workers s)" "workers s ! i = Backoff u" "s' = goto_pc i (Fetch2 u) s"
  then show ?thesis using steps_left_goto [of i s "Fetch2 u"] by (simp add: weight_def)
next
  fix u nav ms
  assume "i < length (workers s)" "workers s ! i = Fetch2 u"
    "s' = loop_head i (push (checkUrl u nav ms) s)"
  then show ?thesis
    using steps_left_release [of i s "checkUrl u nav ms"] by (simp add: weight_def)
next
  assume "i < length (workers s)" "workers s ! i = Closing" "s' = goto_pc i Finished s"
  then show ?thesis using steps_left_goto [of i s Finished] by (simp add: weight_def)
next
  fix e assume "i < length (workers s)" "workers s ! i = Closing" "s' = crash i e s"
  then show ?thesis using steps_left_crash [of i s e] by (simp add: weight_def)
qed

lemma steps_left_run:
  "run cfg es s = Some s' \<Longrightarrow> length es + steps_left s' \<le> steps_left s"
proof (induction es arbitrary: s)
  case Nil
  then show ?case by simp
next
  case (Cons e es)
  from run_Cons [OF Cons.prems] obtain s1
    where r: "resume cfg (fst e) (snd e) s = Some s1" and rest: "run cfg es s1 = Some s'"
    by blast
  show ?case using Cons.IH [OF rest] steps_left_resume [OF r] by simp
qed

lemma steps_left_init: "steps_left (init cfg urls) = 2 * concurrency cfg + 3 * length urls"
proof -
  have "sum_list (map weight (replicate n Start)) = 2 * n" for n
    by (induction n) (auto simp: weight_def)
  then show ?thesis by (simp add: steps_left_def init_def)
qed

lemma rejected_goto: "rejected (goto_pc i p s) = rejected s"
  by (simp add: goto_pc_def)

lemma rejected_loop_head: "rejected (loop_head i s) = rejected s"
  by (simp add: loop_head_def goto_pc_def split: list.splits option.splits)

lemma rejected_crash: "rejected (crash i e s) \<noteq> None"
  by (simp add: crash_def goto_pc_def split: option.splits)

lemma honest_update:
  "p \<noteq> Crashed \<Longrightarrow> Crashed \<in> set (ws[i := p]) \<Longrightarrow> Crashed \<in> set ws"
  using set_update_subset_insert [of ws i p] by auto

lemma honest_goto: "honest s \<Longrightarrow> p \<noteq> Crashed \<Longrightarrow> honest (goto_pc i p s)"
  using honest_update [of p "workers s" i] by (auto simp: honest_def goto_pc_def)

lemma honest_push: "honest (push r s) = honest s"
  by (simp add: honest_def push_def)

lemma honest_loop_head: "honest s \<Longrightarrow> honest (loop_head i s)"
proof -
  assume h: "honest s"
  have q: "honest (s\<lparr>queue := q\<rparr>)" for q using h by (simp add: honest_def)
  show "honest (loop_head i s)"
    using h q by (simp add: loop_head_def honest_goto split: list.splits option.splits)
qed

lemma honest_crash: "honest (crash i e s)"
  using rejected_crash [of i e s] by (simp add: honest_def)

lemma honest_resume:
  assumes r: "resume cfg i c s = Some s'" and h: "honest s"
  shows "honest s'"
proof (rule resume_elim [OF r])
qed (simp_all add: h honest_goto honest_loop_head honest_push honest_crash)

lemma honest_run: "run cfg es s = Some s' \<Longrightarrow> honest s \<Longrightarrow> honest s'"
proof (induction es arbitrary: s)
  case Nil
  then show ?case by simp
next
  case (Cons e es)
  from run_Cons [OF Cons.prems(1)] obtain s1
    where r: "resume cfg (fst e) (snd e) s = Some s1" and rest: "run cfg es s1 = Some s'"
    by blast
  show ?case using Cons.IH [OF rest honest_resume [OF r Cons.prems(2)]] .
qed

lemma honest_init: "honest (init cfg urls)"
  by (simp add: honest_def init_def)

lemma ended_finished: "ended s \<Longrightarrow> honest s \<Longrightarrow> rejected s = None \<Longrightarrow> all_finished s"
  by (auto simp: ended_def honest_def all_finished_def list_all_iff)

lemma resume_calm:
  assumes "i < length (workers s)" and "workers s ! i \<noteq> Finished" and "workers s ! i \<noteq> Crashed"
  shows "\<exists>s'. resume cfg i (calm (workers s ! i)) s = Some s' \<and> rejected s' = rejected s"
  using assms
  by (cases "workers s ! i")
     (auto simp: resume_def calm_def Let_def rejected_goto rejected_loop_head push_def)

lemma not_ended_worker:
  "\<not> ended s \<Longrightarrow>
   \<exists>i<length (workers s). workers s ! i \<noteq> Finished \<and> workers s ! i \<noteq> Crashed"
  by (auto simp: ended_def list_all_iff in_set_conv_nth)

lemma run_append:
  "run cfg (es @ fs) s = (case run cfg es s of None \<Rightarrow> None | Some s' \<Rightarrow> run cfg fs s')"
  by (induction es arbitrary: s) (auto split: option.splits)

lemma run_can_end:
  "\<exists>es s'. run cfg es s = Some s' \<and> ended s' \<and> rejected s' = rejected s"
proof (induction "steps_left s" arbitrary: s rule: less_induct)
  case less
  show ?case
  proof (cases "ended s")
    case True
    then have "run cfg [] s = Some s \<and> ended s \<and> rejected s = rejected s" by simp
    then show ?thesis by blast
  next
    case False
    then obtain i where i: "i < length (workers s)" "workers s ! i \<noteq> Finished"
        "workers s ! i \<noteq> Crashed"
      using not_ended_worker by blast
    then obtain s1 where r: "resume cfg i (calm (workers s ! i)) s = Some s1"
      and j: "rejected s1 = rejected s"
      using resume_calm by blast
    from less [OF steps_left_resume [OF r]]
    obtain es s' where "run cfg es s1 = Some s'" "ended s'" "rejected s' = rejected s1" by blast
    then have "run cfg ((i, calm (workers s ! i)) # es) s = Some s' \<and> ended s' \<and>
               rejected s' = rejected s"
      using r j by simp
    then show ?thesis by blast
  qed
qed

lemma run_extends:
  assumes r: "run cfg es (init cfg urls) = Some s" and n: "rejected s = None"
  shows "\<exists>fs rs. processUrls cfg urls (es @ fs) = Some (Inr rs)"
proof -
  from run_can_end [of cfg s] obtain fs s'
    where f: "run cfg fs s = Some s'" and e: "ended s'" and j: "rejected s' = rejected s"
    by blast
  have whole: "run cfg (es @ fs) (init cfg urls) = Some s'"
    using r f by (simp add: run_append)
  have "honest s'" using whole honest_init by (rule honest_run)
  then have "all_finished s'" using e j n by (simp add: ended_finished)
  then have "processUrls cfg urls (es @ fs) = Some (Inr (pushed s'))"
    using whole j n by (simp add: processUrls_def)
  then show ?thesis by blast
qed

subsection \<open>What is pushed for a target is its last attempt\<close>

lemma about_Nil: "about u [] = []"
  by (simp add: about_def)

lemma about_snoc: "about u (rs @ [r]) = (if url r = u then about u rs @ [r] else about u rs)"
  by (simp add: about_def)

lemma about_append: "about u (xs @ ys) = about u xs @ about u ys"
  by (simp add: about_def)

lemma waiting_goto: "waiting (goto_pc i p s) u = waiting s u"
  by (simp add: waiting_def goto_pc_def)

lemma pushed_goto: "pushed (goto_pc i p s) = pushed s"
  by (simp add: goto_pc_def)

lemma trying_goto:
  "i < length (workers s) \<Longrightarrow>
   trying (goto_pc i p s) u + (if workers s ! i = Fetch1 u then 1 else 0) =
   trying s u + (if p = Fetch1 u then 1 else 0)"
  using count_update [of i "workers s" "\<lambda>p. p = Fetch1 u" p]
  by (simp add: trying_def goto_pc_def)

lemma retrying_goto:
  "i < length (workers s) \<Longrightarrow>
   retrying (goto_pc i p s) u
     + (if workers s ! i = Backoff u \<or> workers s ! i = Fetch2 u then 1 else 0) =
   retrying s u + (if p = Backoff u \<or> p = Fetch2 u then 1 else 0)"
  using count_update [of i "workers s" "\<lambda>p. p = Backoff u \<or> p = Fetch2 u" p]
  by (simp add: retrying_def goto_pc_def)

lemma tracked_goto_same:
  assumes i: "i < length (workers s)"
    and a: "(workers s ! i = Fetch1 u) = (p = Fetch1 u)"
    and b: "(workers s ! i = Backoff u \<or> workers s ! i = Fetch2 u) = (p = Backoff u \<or> p = Fetch2 u)"
  shows "tracked cfg (goto_pc i p s) past u = tracked cfg s past u"
proof -
  have t: "trying (goto_pc i p s) u = trying s u"
    using trying_goto [OF i, of p u] a by (simp split: if_splits)
  have r: "retrying (goto_pc i p s) u = retrying s u"
    using retrying_goto [OF i, of p u] b by (simp split: if_splits)
  show ?thesis by (simp add: tracked_def t r waiting_goto pushed_goto)
qed

lemma tracked_rejected: "tracked cfg (s\<lparr>rejected := x\<rparr>) past u = tracked cfg s past u"
  by (simp add: tracked_def waiting_def trying_def retrying_def)

lemma tracked_crash:
  assumes i: "i < length (workers s)" and h: "holding (workers s ! i) = []"
  shows "tracked cfg (crash i e s) past u = tracked cfg s past u"
proof -
  let ?s = "s\<lparr>rejected := (case rejected s of None \<Rightarrow> Some e | Some e0 \<Rightarrow> Some e0)\<rparr>"
  have w: "workers ?s ! i \<noteq> Fetch1 u" "workers ?s ! i \<noteq> Backoff u" "workers ?s ! i \<noteq> Fetch2 u"
    using h by (auto simp: holding_def)
  have "tracked cfg (goto_pc i Crashed ?s) past u = tracked cfg ?s past u"
    using i w by (intro tracked_goto_same) simp_all
  then show ?thesis by (simp add: crash_def tracked_rejected)
qed

lemma tracked_other:
  "url r \<noteq> u \<Longrightarrow> tracked cfg (push r s) (past @ [r]) u = tracked cfg s past u"
  by (simp add: tracked_def push_def about_snoc waiting_def trying_def retrying_def)

lemma tracked_past_other:
  "url r \<noteq> u \<Longrightarrow> tracked cfg s (past @ [r]) u = tracked cfg s past u"
  by (simp add: tracked_def about_snoc)

lemma tracked_retry:
  assumes i: "i < length (workers s)" and w: "workers s ! i = Fetch1 v"
    and st: "status r = Some 0" "0 < retries cfg" and ur: "url r = v"
    and tr: "tracked cfg s past u"
  shows "tracked cfg (goto_pc i (Backoff v) s) (past @ [r]) u"
proof (cases "u = v")
  case False
  have "tracked cfg (goto_pc i (Backoff v) s) past u = tracked cfg s past u"
    using i w False by (intro tracked_goto_same) auto
  then show ?thesis using tr False ur by (simp add: tracked_past_other)
next
  case True
  let ?s = "goto_pc i (Backoff v) s"
  have t: "trying ?s v + 1 = trying s v"
    using trying_goto [OF i, of "Backoff v" v] w by simp
  have rt: "retrying ?s v = retrying s v + 1"
    using retrying_goto [OF i, of "Backoff v" v] w by simp
  have old: "trying s v = 1" "waiting s v = 0" "retrying s v = 0"
      "about v past = []" "about v (pushed s) = []"
    using tr t True by (auto simp: tracked_def)
  have new: "trying ?s v = 0" "retrying ?s v = 1" using t rt old by simp_all
  show ?thesis
    unfolding True tracked_def
    using old new st ur by (simp add: waiting_goto pushed_goto about_snoc)
qed

lemma tracked_first:
  assumes i: "i < length (workers s)" and w: "workers s ! i = Fetch1 v"
    and st: "\<not> (status r = Some 0 \<and> 0 < retries cfg)" and ur: "url r = v"
    and tr: "tracked cfg s past u"
  shows "tracked cfg (goto_pc i Start (push r s)) (past @ [r]) u"
proof (cases "u = v")
  case False
  have i': "i < length (workers (push r s))" using i by (simp add: push_def)
  have "tracked cfg (goto_pc i Start (push r s)) (past @ [r]) u =
        tracked cfg (push r s) (past @ [r]) u"
    using i' w False by (intro tracked_goto_same) (auto simp: push_def)
  then show ?thesis using tr False ur by (simp add: tracked_other)
next
  case True
  let ?s = "goto_pc i Start (push r s)"
  have i': "i < length (workers (push r s))" using i by (simp add: push_def)
  have w': "workers (push r s) ! i = Fetch1 v" using w by (simp add: push_def)
  have same: "trying (push r s) v = trying s v" "retrying (push r s) v = retrying s v"
      "waiting (push r s) v = waiting s v"
    by (simp_all add: trying_def retrying_def waiting_def push_def)
  have t: "trying ?s v + 1 = trying s v"
    using trying_goto [OF i', of Start v] w' same by simp
  have rt: "retrying ?s v = retrying s v"
    using retrying_goto [OF i', of Start v] w' same by simp
  have old: "trying s v = 1" "waiting s v = 0" "retrying s v = 0"
      "about v past = []" "about v (pushed s) = []"
    using tr t True by (auto simp: tracked_def)
  have new: "trying ?s v = 0" "retrying ?s v = 0" "waiting ?s v = 0"
    using t rt old same by (simp_all add: waiting_goto)
  have p: "about v (pushed ?s) = [r]" "about v (past @ [r]) = [r]"
    using old ur by (simp_all add: pushed_goto push_def about_snoc)
  have "settled cfg [r] [r]" using st by (simp add: settled_def)
  then show ?thesis
    unfolding True tracked_def using new p by simp
qed

lemma tracked_second:
  assumes i: "i < length (workers s)" and w: "workers s ! i = Fetch2 v"
    and ur: "url r = v" and tr: "tracked cfg s past u"
  shows "tracked cfg (goto_pc i Start (push r s)) (past @ [r]) u"
proof (cases "u = v")
  case False
  have i': "i < length (workers (push r s))" using i by (simp add: push_def)
  have "tracked cfg (goto_pc i Start (push r s)) (past @ [r]) u =
        tracked cfg (push r s) (past @ [r]) u"
    using i' w False by (intro tracked_goto_same) (auto simp: push_def)
  then show ?thesis using tr False ur by (simp add: tracked_other)
next
  case True
  let ?s = "goto_pc i Start (push r s)"
  have i': "i < length (workers (push r s))" using i by (simp add: push_def)
  have w': "workers (push r s) ! i = Fetch2 v" using w by (simp add: push_def)
  have same: "trying (push r s) v = trying s v" "retrying (push r s) v = retrying s v"
      "waiting (push r s) v = waiting s v"
    by (simp_all add: trying_def retrying_def waiting_def push_def)
  have t: "trying ?s v = trying s v"
    using trying_goto [OF i', of Start v] w' same by simp
  have rt: "retrying ?s v + 1 = retrying s v"
    using retrying_goto [OF i', of Start v] w' same by simp
  have old: "trying s v = 0" "waiting s v = 0" "retrying s v = 1"
    using tr rt True by (auto simp: tracked_def)
  then obtain r1 where r1: "about v past = [r1]" "status r1 = Some 0" "0 < retries cfg"
    and np: "about v (pushed s) = []"
    using tr True by (auto simp: tracked_def)
  have new: "trying ?s v = 0" "retrying ?s v = 0" "waiting ?s v = 0"
    using t rt old same by (simp_all add: waiting_goto)
  have p: "about v (pushed ?s) = [r]" "about v (past @ [r]) = [r1, r]"
    using r1 np ur by (simp_all add: pushed_goto push_def about_snoc)
  have "settled cfg [r1, r] [r]" using r1 by (simp add: settled_def)
  then show ?thesis
    unfolding True tracked_def using new p by simp
qed

lemma tracked_take:
  assumes i: "i < length (workers s)" and h: "holding (workers s ! i) = []"
    and q: "queue s = Some v # q'" and tr: "tracked cfg s past u"
  shows "tracked cfg (goto_pc i (Fetch1 v) (s\<lparr>queue := q'\<rparr>)) past u"
proof -
  let ?q = "s\<lparr>queue := q'\<rparr>"
  let ?s = "goto_pc i (Fetch1 v) ?q"
  have i': "i < length (workers ?q)" using i by simp
  have w: "workers ?q ! i \<noteq> Fetch1 u" "workers ?q ! i \<noteq> Backoff u" "workers ?q ! i \<noteq> Fetch2 u"
    using h by (auto simp: holding_def)
  have same: "trying ?q u = trying s u" "retrying ?q u = retrying s u"
    by (simp_all add: trying_def retrying_def)
  have rt: "retrying ?s u = retrying s u"
    using retrying_goto [OF i', of "Fetch1 v" u] w same by simp
  have pu: "pushed ?s = pushed s" by (simp add: goto_pc_def)
  show ?thesis
  proof (cases "u = v")
    case False
    have t: "trying ?s u = trying s u"
      using trying_goto [OF i', of "Fetch1 v" u] w same False by simp
    have wa: "waiting ?s u = waiting s u"
      using q False by (simp add: waiting_def goto_pc_def)
    show ?thesis using tr by (simp add: tracked_def t rt wa pu)
  next
    case True
    have t: "trying ?s u = trying s u + 1"
      using trying_goto [OF i', of "Fetch1 v" u] w same True by simp
    have wa: "waiting s u = waiting ?s u + 1"
      using q True by (simp add: waiting_def goto_pc_def)
    have old: "waiting ?s u = 0" "trying s u = 0" "retrying s u = 0"
        "about u past = []" "about u (pushed s) = []"
      using tr wa by (auto simp: tracked_def)
    show ?thesis
      unfolding tracked_def using old t rt pu by simp
  qed
qed

lemma tracked_loop_head:
  assumes i: "i < length (workers s)" and h: "holding (workers s ! i) = []"
    and q: "\<forall>t\<in>set (queue s). \<not> falsy t" and tr: "tracked cfg s past u"
  shows "tracked cfg (loop_head i s) past u"
proof (cases "queue s")
  case Nil
  have w: "workers s ! i \<noteq> Fetch1 u" "workers s ! i \<noteq> Backoff u" "workers s ! i \<noteq> Fetch2 u"
    using h by (auto simp: holding_def)
  have "tracked cfg (goto_pc i Closing s) past u = tracked cfg s past u"
    using i w by (intro tracked_goto_same) simp_all
  then show ?thesis using tr Nil by (simp add: loop_head_def)
next
  case (Cons t q')
  with q obtain v where t: "t = Some v" and v: "v \<noteq> []"
    by (cases t) (auto simp: falsy_def)
  have "loop_head i s = goto_pc i (Fetch1 v) (s\<lparr>queue := q'\<rparr>)"
    using Cons t v by (simp add: loop_head_def)
  then show ?thesis using tracked_take [OF i h _ tr, of v q'] Cons t by simp
qed

lemma loop_head_overwrite: "loop_head i (goto_pc i p s) = loop_head i s"
  by (simp add: loop_head_def goto_pc_def split: list.splits option.splits)

lemma tracked_release:
  assumes i: "i < length (workers s)" and q: "\<forall>t\<in>set (queue s). \<not> falsy t"
    and tr: "tracked cfg (goto_pc i Start (push r s)) past u"
  shows "tracked cfg (loop_head i (push r s)) past u"
proof -
  let ?s = "goto_pc i Start (push r s)"
  have i': "i < length (workers ?s)" using i by (simp add: goto_pc_def push_def)
  have h: "holding (workers ?s ! i) = []"
    using i by (simp add: goto_pc_def push_def holding_def)
  have q': "\<forall>t\<in>set (queue ?s). \<not> falsy t" using q by (simp add: goto_pc_def push_def)
  have "tracked cfg (loop_head i ?s) past u" using i' h q' tr by (rule tracked_loop_head)
  then show ?thesis by (simp add: loop_head_overwrite)
qed

lemma tracked_resume:
  assumes r: "resume cfg i c s = Some s'" and q: "\<forall>t\<in>set (queue s). \<not> falsy t"
    and tr: "tracked cfg s past u"
  shows "tracked cfg s' (past @ attempt i c s) u"
proof (rule resume_elim [OF r])
  assume a: "i < length (workers s)" "workers s ! i = Start" "c = Resolved" "s' = loop_head i s"
  have "tracked cfg (loop_head i s) past u"
    using a(1) _ q tr by (rule tracked_loop_head) (simp add: a(2) holding_def)
  then show ?thesis using a by (simp add: attempt_def)
next
  fix e
  assume a: "i < length (workers s)" "workers s ! i = Start" "c = Rejected e" "s' = crash i e s"
  have "tracked cfg (crash i e s) past u = tracked cfg s past u"
    using a(1) by (rule tracked_crash) (simp add: a(2) holding_def)
  then show ?thesis using a tr by (simp add: attempt_def)
next
  fix v nav ms
  assume a: "i < length (workers s)" "workers s ! i = Fetch1 v" "c = Navigated nav ms"
    "status (checkUrl v nav ms) = Some 0 \<and> 0 < retries cfg" "s' = goto_pc i (Backoff v) s"
  have "tracked cfg (goto_pc i (Backoff v) s) (past @ [checkUrl v nav ms]) u"
    using a(1,2) _ _ _ tr by (rule tracked_retry) (simp_all add: a(4) url_checkUrl)
  then show ?thesis using a by (simp add: attempt_def)
next
  fix v nav ms
  assume a: "i < length (workers s)" "workers s ! i = Fetch1 v" "c = Navigated nav ms"
    "\<not> (status (checkUrl v nav ms) = Some 0 \<and> 0 < retries cfg)"
    "s' = loop_head i (push (checkUrl v nav ms) s)"
  have "tracked cfg (goto_pc i Start (push (checkUrl v nav ms) s)) (past @ [checkUrl v nav ms]) u"
    using a(1,2,4) _ tr by (rule tracked_first) (simp add: url_checkUrl)
  then have "tracked cfg (loop_head i (push (checkUrl v nav ms) s)) (past @ [checkUrl v nav ms]) u"
    using a(1) q by (intro tracked_release)
  then show ?thesis using a by (simp add: attempt_def)
next
  fix v
  assume a: "i < length (workers s)" "workers s ! i = Backoff v" "c = Resolved"
    "s' = goto_pc i (Fetch2 v) s"
  have "tracked cfg (goto_pc i (Fetch2 v) s) past u = tracked cfg s past u"
    using a(1) by (rule tracked_goto_same) (auto simp: a(2))
  then show ?thesis using a tr by (simp add: attempt_def)
next
  fix v nav ms
  assume a: "i < length (workers s)" "workers s ! i = Fetch2 v" "c = Navigated nav ms"
    "s' = loop_head i (push (checkUrl v nav ms) s)"
  have "tracked cfg (goto_pc i Start (push (checkUrl v nav ms) s)) (past @ [checkUrl v nav ms]) u"
    using a(1,2) _ tr by (rule tracked_second) (simp add: url_checkUrl)
  then have "tracked cfg (loop_head i (push (checkUrl v nav ms) s)) (past @ [checkUrl v nav ms]) u"
    using a(1) q by (intro tracked_release)
  then show ?thesis using a by (simp add: attempt_def)
next
  assume a: "i < length (workers s)" "workers s ! i = Closing" "c = Resolved"
    "s' = goto_pc i Finished s"
  have "tracked cfg (goto_pc i Finished s) past u = tracked cfg s past u"
    using a(1) by (rule tracked_goto_same) (simp_all add: a(2))
  then show ?thesis using a tr by (simp add: attempt_def)
next
  fix e
  assume a: "i < length (workers s)" "workers s ! i = Closing" "c = Rejected e" "s' = crash i e s"
  have "tracked cfg (crash i e s) past u = tracked cfg s past u"
    using a(1) by (rule tracked_crash) (simp add: a(2) holding_def)
  then show ?thesis using a tr by (simp add: attempt_def)
qed

lemma tracked_run:
  "run cfg es s = Some s' \<Longrightarrow> sound s \<Longrightarrow> tracked cfg s past u \<Longrightarrow>
   tracked cfg s' (past @ attempts cfg es s) u"
proof (induction es arbitrary: s past)
  case Nil
  then show ?case by simp
next
  case (Cons e es)
  obtain i c where e: "e = (i, c)" by (cases e) auto
  from run_Cons [OF Cons.prems(1)] obtain s1
    where r: "resume cfg i c s = Some s1" and rest: "run cfg es s1 = Some s'"
    by (auto simp: e)
  have s1: "sound s1" using r Cons.prems(2) by (rule sound_resume)
  have q: "\<forall>t\<in>set (queue s). \<not> falsy t" using Cons.prems(2) by (simp add: sound_def)
  have t1: "tracked cfg s1 (past @ attempt i c s) u" using r q Cons.prems(3) by (rule tracked_resume)
  from Cons.IH [OF rest s1 t1] show ?case using r by (simp add: e)
qed

lemma distinct_count_le: "distinct xs \<Longrightarrow> length (filter (\<lambda>t. t = x) xs) \<le> 1"
  by (induction xs) (auto simp: filter_empty_conv)

lemma tracked_init:
  assumes "distinct urls"
  shows "tracked cfg (init cfg urls) [] u"
proof -
  have "length (filter (\<lambda>p. P p) (replicate n Start)) = 0" if "\<not> P Start" for P n
    using that by (induction n) auto
  then have z: "trying (init cfg urls) u = 0" "retrying (init cfg urls) u = 0"
    by (simp_all add: trying_def retrying_def init_def)
  have w: "waiting (init cfg urls) u \<le> 1"
    using distinct_count_le [OF assms, of "Some u"] by (simp add: waiting_def init_def)
  show ?thesis using z w by (simp add: tracked_def about_Nil init_def)
qed

lemma finished_counts:
  assumes "all_finished s"
  shows "trying s u = 0 \<and> retrying s u = 0"
proof -
  have "list_all (\<lambda>p. p = Finished) ws \<Longrightarrow>
        filter (\<lambda>p. p = Fetch1 u) ws = [] \<and> filter (\<lambda>p. p = Backoff u \<or> p = Fetch2 u) ws = []" for ws
    by (induction ws) auto
  then show ?thesis using assms by (simp add: all_finished_def trying_def retrying_def)
qed

lemma processUrls_settled:
  assumes c: "0 < concurrency cfg" and t: "\<forall>t\<in>set urls. \<not> falsy t" and d: "distinct urls"
    and p: "processUrls cfg urls es = Some (Inr rs)" and u: "Some u \<in> set urls"
  shows "settled cfg (about u (attempts cfg es (init cfg urls))) (about u rs)"
proof -
  from processUrls_Inr [OF p] obtain s where r: "run cfg es (init cfg urls) = Some s"
    and fin: "all_finished s" and rs: "rs = pushed s"
    by blast
  have snd0: "sound (init cfg urls)" using t by (rule sound_init)
  have tr: "tracked cfg s ([] @ attempts cfg es (init cfg urls)) u"
    using r snd0 tracked_init [OF d] by (rule tracked_run)
  have snd: "sound s" using run_invariants [OF r snd0] by simp
  have ne: "workers s \<noteq> []"
    using length_workers_run [OF r] c by (auto simp: init_def)
  have w: "waiting s u = 0"
    using finished_queue_empty [OF fin snd ne] by (simp add: waiting_def)
  have "u \<in> set (map the urls)" using u by force
  then have "u \<in># mset (map url rs)"
    using processUrls_accounts [OF c t p] by simp
  then have "about u rs \<noteq> []"
    by (auto simp: about_def filter_empty_conv)
  then show ?thesis
    using tr w finished_counts [OF fin, of u] rs by (auto simp: tracked_def)
qed

lemma settled_last:
  assumes "settled cfg a d"
  shows "a \<noteq> [] \<and> length a \<le> 2 \<and> length a \<le> 1 + retries cfg \<and> d = [last a] \<and>
         (length a = 2 \<longleftrightarrow> status (hd a) = Some 0 \<and> 0 < retries cfg)"
  using assms by (auto simp: settled_def)


text \<open>
  When a page set-up or a \<open>page.close()\<close> rejects, \<open>processUrls\<close> throws and returns no
  results; and every configuration that \<open>main\<close> builds has at least one worker.
\<close>

lemma processUrls_throws:
  "run cfg es (init cfg urls) = Some s \<Longrightarrow> rejected s = Some e \<Longrightarrow>
   processUrls cfg urls es = Some (Inl e)"
  by (simp add: processUrls_def)

lemma rejected_setup_throws:
  "0 < concurrency cfg \<Longrightarrow> processUrls cfg urls [(0, Rejected e)] = Some (Inl e)"
  by (simp add: processUrls_def init_def resume_def crash_def goto_pc_def)

lemma rejected_close_throws:
  "processUrls (CONFIG\<lparr>concurrency := 1\<rparr>) [Some ''http://a'']
     [(0, Resolved), (0, Navigated (Response (Some (200, ''OK'')) None) 5),
      (0, Rejected ''Protocol error: Target closed'')] =
   Some (Inl ''Protocol error: Target closed'')"
  by code_simp

lemma parse_concurrency_positive:
  "parse_concurrency args CONFIG = Inr cfg \<Longrightarrow> 0 < concurrency cfg"
  by (auto simp: parse_concurrency_def CONFIG_def split: option.splits if_splits)
section \<open>Facts about extractUrls\<close>

lemma foldl_dedupe_distinct:
  "distinct acc \<Longrightarrow>
   distinct (foldl (\<lambda>acc x. if x \<in> set acc then acc else acc @ [x]) acc xs) \<and>
   set (foldl (\<lambda>acc x. if x \<in> set acc then acc else acc @ [x]) acc xs) = set acc \<union> set xs"
  by (induction xs arbitrary: acc) auto

lemma distinct_dedupe: "distinct (dedupe xs)"
  using foldl_dedupe_distinct [of "[]" xs] by (simp add: dedupe_def)

lemma set_dedupe: "set (dedupe xs) = set xs"
  using foldl_dedupe_distinct [of "[]" xs] by (simp add: dedupe_def)

lemma clean_no_trailing: "clean u = [] \<or> \<not> is_trailing (last (clean u))"
proof (cases "dropWhile is_trailing (rev u) = []")
  case True
  then show ?thesis by (simp add: clean_def)
next
  case False
  then have "\<not> is_trailing (hd (dropWhile is_trailing (rev u)))"
    by (rule hd_dropWhile)
  then show ?thesis using False by (simp add: clean_def last_rev)
qed

lemma clean_fixed: "u = [] \<or> \<not> is_trailing (last u) \<Longrightarrow> clean u = u"
  by (cases u rule: rev_cases) (auto simp: clean_def)

lemma clean_idem: "clean (clean u) = clean u"
  using clean_no_trailing [of u] by (rule clean_fixed)

lemma scheme_cases: "scheme s = Some p \<Longrightarrow> p = ''http://'' \<or> p = ''https://''"
  by (auto simp: scheme_def split: if_splits)

lemma match_url_shape:
  assumes "match_url s = Some (m, rest)"
  shows "\<exists>p body. m = p @ body \<and> (p = ''http://'' \<or> p = ''https://'') \<and> body \<noteq> [] \<and>
           (\<forall>c\<in>set body. url_char c)"
proof -
  from assms obtain p where p: "scheme s = Some p"
    and m: "m = p @ takeWhile url_char (drop (length p) s)"
    and ne: "takeWhile url_char (drop (length p) s) \<noteq> []"
    by (cases "scheme s") (auto simp: match_url_def Let_def split: if_splits)
  have "\<forall>c\<in>set (takeWhile url_char (drop (length p) s)). url_char c"
    by (auto dest: set_takeWhileD)
  then show ?thesis using m ne scheme_cases [OF p] by blast
qed

lemma match_all_shape:
  "m \<in> set (match_all s) \<Longrightarrow>
   \<exists>p body. m = p @ body \<and> (p = ''http://'' \<or> p = ''https://'') \<and> body \<noteq> [] \<and>
           (\<forall>c\<in>set body. url_char c)"
proof (induction s rule: match_all.induct)
  case 1
  then show ?case by simp
next
  case (2 c cs)
  show ?case
  proof (cases "match_url (c # cs)")
    case None
    then show ?thesis using 2 by simp
  next
    case (Some a)
    obtain m' rest where a: "a = (m', rest)" by (cases a) auto
    from 2(3) Some a have "m = m' \<or> m \<in> set (match_all rest)" by simp
    then show ?thesis
    proof
      assume "m = m'"
      then show ?thesis using match_url_shape [of "c # cs" m' rest] Some a by simp
    next
      assume "m \<in> set (match_all rest)"
      then show ?thesis using 2(2) [OF Some a [symmetric]] by simp
    qed
  qed
qed

lemma clean_after_scheme:
  assumes "p = ''http://'' \<or> p = ''https://''"
  shows "clean (p @ body) = p @ clean body"
proof -
  have nt: "\<not> is_trailing (hd (rev p))" and ne: "rev p \<noteq> []"
    using assms by (auto simp: is_trailing_def)
  then have d: "dropWhile is_trailing (rev p) = rev p"
    by (cases "rev p") auto
  have "dropWhile is_trailing (rev body @ rev p) = dropWhile is_trailing (rev body) @ rev p"
    using d by (simp add: dropWhile_append)
  then show ?thesis by (simp add: clean_def)
qed

lemma extractUrls_shape:
  assumes "u \<in> set (extractUrls content)"
  shows "clean u = u \<and> (prefix ''http://'' u \<or> prefix ''https://'' u) \<and> u \<noteq> [] \<and>
         \<not> is_trailing (last u) \<and> (\<exists>m\<in>set (match_all content). u = clean m)"
proof -
  from assms obtain m where m: "m \<in> set (match_all content)" and u: "u = clean m"
    by (auto simp: extractUrls_def set_dedupe)
  from match_all_shape [OF m] obtain p body where
    pb: "m = p @ body" "p = ''http://'' \<or> p = ''https://''" by blast
  have up: "u = p @ clean body" using u pb clean_after_scheme by simp
  then have pre: "prefix ''http://'' u \<or> prefix ''https://'' u" and ne: "u \<noteq> []"
    using pb(2) by auto
  have "\<not> is_trailing (last u)"
    using clean_no_trailing [of m] u ne by simp
  then show ?thesis using u m pre ne clean_idem by auto
qed

section \<open>Facts about the extractors\<close>

lemma includes_s_sublist: "includes_s s t \<longleftrightarrow> sublist t s"
  by (induction s) (auto simp: sublist_Cons_right)

section \<open>The claims about generateReport\<close>

text \<open>
  C1 (as amended). Every result is counted in exactly one bucket, decided by its status
  (0 when the status is missing): 200 to 299 is ok, 300 to 399 redirects, 403 blocked,
  400 to 499 other than 403 clientErrors, 500 and every status above it (600 and 999
  too) serverErrors, and a status below 200, or none, failed.
\<close>

theorem count_status_table:
  "(200 \<le> num_or (status r) 0 \<and> num_or (status r) 0 < 300 \<longrightarrow>
      fst (report_body (s, m) r) = s\<lparr>ok := ok s + 1\<rparr>) \<and>
   (300 \<le> num_or (status r) 0 \<and> num_or (status r) 0 < 400 \<longrightarrow>
      fst (report_body (s, m) r) = s\<lparr>redirects := redirects s + 1\<rparr>) \<and>
   (num_or (status r) 0 = 403 \<longrightarrow>
      fst (report_body (s, m) r) = s\<lparr>blocked := blocked s + 1\<rparr>) \<and>
   (400 \<le> num_or (status r) 0 \<and> num_or (status r) 0 < 500 \<and> num_or (status r) 0 \<noteq> 403 \<longrightarrow>
      fst (report_body (s, m) r) = s\<lparr>clientErrors := clientErrors s + 1\<rparr>) \<and>
   (500 \<le> num_or (status r) 0 \<longrightarrow>
      fst (report_body (s, m) r) = s\<lparr>serverErrors := serverErrors s + 1\<rparr>) \<and>
   (num_or (status r) 0 < 200 \<longrightarrow>
      fst (report_body (s, m) r) = s\<lparr>failed := failed s + 1\<rparr>) \<and>
   (status r = None \<longrightarrow>
      fst (report_body (s, m) r) = s\<lparr>failed := failed s + 1\<rparr>)"
  by (simp add: report_body_def Let_def count_status_def num_or_def)

theorem count_status_table_witness:
  "fst (report_body (summary0 6, Map.empty) (checkUrl ''a'' (Response (Some (200, ''OK'')) None) 1)) = (summary0 6)\<lparr>ok := 1\<rparr> \<and>
   fst (report_body (summary0 6, Map.empty) (checkUrl ''a'' (Response (Some (301, ''Moved'')) None) 1)) = (summary0 6)\<lparr>redirects := 1\<rparr> \<and>
   fst (report_body (summary0 6, Map.empty) (checkUrl ''a'' (Response (Some (403, ''Forbidden'')) None) 1)) = (summary0 6)\<lparr>blocked := 1\<rparr> \<and>
   fst (report_body (summary0 6, Map.empty) (checkUrl ''a'' (Response (Some (404, ''Not Found'')) None) 1)) = (summary0 6)\<lparr>clientErrors := 1\<rparr> \<and>
   fst (report_body (summary0 6, Map.empty) (checkUrl ''a'' (Response (Some (500, ''Error'')) None) 1)) = (summary0 6)\<lparr>serverErrors := 1\<rparr> \<and>
   fst (report_body (summary0 6, Map.empty) (checkUrl ''a'' (Response None None) 1)) = (summary0 6)\<lparr>failed := 1\<rparr> \<and>
   fst (report_body (summary0 6, Map.empty) (checkUrl ''a'' (Thrown ''boom'') 1)) = (summary0 6)\<lparr>failed := 1\<rparr>"
  using count_status_table [of "checkUrl ''a'' (Response (Some (200, ''OK'')) None) 1" "summary0 6" Map.empty]
    count_status_table [of "checkUrl ''a'' (Response (Some (301, ''Moved'')) None) 1" "summary0 6" Map.empty]
    count_status_table [of "checkUrl ''a'' (Response (Some (403, ''Forbidden'')) None) 1" "summary0 6" Map.empty]
    count_status_table [of "checkUrl ''a'' (Response (Some (404, ''Not Found'')) None) 1" "summary0 6" Map.empty]
    count_status_table [of "checkUrl ''a'' (Response (Some (500, ''Error'')) None) 1" "summary0 6" Map.empty]
    count_status_table [of "checkUrl ''a'' (Response None None) 1" "summary0 6" Map.empty]
    count_status_table [of "checkUrl ''a'' (Thrown ''boom'') 1" "summary0 6" Map.empty]
  by (simp add: checkUrl_def failure_def num_or_def summary0_def)

text \<open>
  A status of 999 is counted as a server error, not as a failure.
\<close>

theorem status_999_counterexample:
  "summary (generateReport ''2025-12-07T00:00:00.000Z''
     [checkUrl ''https://www.linkedin.com/company/x'' (Response (Some (999, ''Request denied'')) None) 80]) =
   \<lparr>total_n = 1, ok = 0, redirects = 0, clientErrors = 0, serverErrors = 1, blocked = 0, failed = 0\<rparr>"
  by (simp add: generateReport_def Let_def report_body_def count_status_def checkUrl_def num_or_def summary0_def)

text \<open>
  C10. For every list of results: \<open>summary.total\<close> is its length; the six buckets count
  the results of six classes that exclude one another and cover every status, so their
  sum is the total; the six buckets are all there, at zero for an empty list; the counts
  under \<open>byStatus\<close> add up to the total.
\<close>

theorem report_totals:
  "total_n (summary (generateReport now rs)) = length rs \<and>
   ok (summary (generateReport now rs)) + redirects (summary (generateReport now rs))
     + blocked (summary (generateReport now rs)) + clientErrors (summary (generateReport now rs))
     + serverErrors (summary (generateReport now rs)) + failed (summary (generateReport now rs))
     = total_n (summary (generateReport now rs)) \<and>
   ok (summary (generateReport now rs)) =
     length (filter (\<lambda>r. 200 \<le> num_or (status r) 0 \<and> num_or (status r) 0 < 300) rs) \<and>
   redirects (summary (generateReport now rs)) =
     length (filter (\<lambda>r. 300 \<le> num_or (status r) 0 \<and> num_or (status r) 0 < 400) rs) \<and>
   blocked (summary (generateReport now rs)) =
     length (filter (\<lambda>r. num_or (status r) 0 = 403) rs) \<and>
   clientErrors (summary (generateReport now rs)) =
     length (filter (\<lambda>r. 400 \<le> num_or (status r) 0 \<and> num_or (status r) 0 < 500
                          \<and> num_or (status r) 0 \<noteq> 403) rs) \<and>
   serverErrors (summary (generateReport now rs)) =
     length (filter (\<lambda>r. 500 \<le> num_or (status r) 0) rs) \<and>
   failed (summary (generateReport now rs)) =
     length (filter (\<lambda>r. num_or (status r) 0 < 200) rs) \<and>
   finite (dom (byStatus (generateReport now rs))) \<and>
   (\<Sum>k\<in>dom (byStatus (generateReport now rs)). the (byStatus (generateReport now rs) k))
     = total_n (summary (generateReport now rs)) \<and>
   summary (generateReport now []) =
     \<lparr>total_n = 0, ok = 0, redirects = 0, clientErrors = 0, serverErrors = 0, blocked = 0, failed = 0\<rparr>"
proof -
  let ?acc = "(summary0 (length rs), Map.empty :: int \<rightharpoonup> nat)"
  have s: "summary (generateReport now rs) = fst (report_loop rs ?acc)"
    and b: "byStatus (generateReport now rs) = snd (report_loop rs ?acc)"
    by (simp_all add: generateReport_def Let_def)
  have fin: "finite (dom (snd ?acc))" by simp
  note sums = report_loop_sums [OF fin, of rs]
  have z: "bsum (fst ?acc) = 0" "total_n (fst ?acc) = length rs" "msum (snd ?acc) = 0"
    by (simp_all add: bsum_def summary0_def msum_def)
  have t: "total_n (summary (generateReport now rs)) = length rs"
    using sums z by (simp add: s)
  have six: "bsum (summary (generateReport now rs)) = length rs"
    using sums z by (simp add: s)
  have m: "msum (byStatus (generateReport now rs)) = length rs"
    and f: "finite (dom (byStatus (generateReport now rs)))"
    using sums z by (simp_all add: b)
  have e: "summary (generateReport now []) =
     \<lparr>total_n = 0, ok = 0, redirects = 0, clientErrors = 0, serverErrors = 0, blocked = 0, failed = 0\<rparr>"
    by (simp add: generateReport_def Let_def summary0_def)
  have c: "ok (fst ?acc) = 0" "redirects (fst ?acc) = 0" "blocked (fst ?acc) = 0"
     "clientErrors (fst ?acc) = 0" "serverErrors (fst ?acc) = 0" "failed (fst ?acc) = 0"
    by (simp_all add: summary0_def)
  note counts = report_loop_counts [of rs ?acc]
  show ?thesis
    using t six m f e counts c
    unfolding s b bsum_def msum_def by simp
qed

theorem report_totals_witness:
  "summary (generateReport ''t''
     [checkUrl ''a'' (Response (Some (200, ''OK'')) None) 1,
      checkUrl ''b'' (Thrown ''net::ERR_NAME_NOT_RESOLVED at b'') 2,
      checkUrl ''c'' (Response (Some (403, ''Forbidden'')) None) 3]) =
     \<lparr>total_n = 3, ok = 1, redirects = 0, clientErrors = 0, serverErrors = 0, blocked = 1, failed = 1\<rparr> \<and>
   (\<Sum>k\<in>dom (byStatus (generateReport ''t''
     [checkUrl ''a'' (Response (Some (200, ''OK'')) None) 1,
      checkUrl ''b'' (Thrown ''net::ERR_NAME_NOT_RESOLVED at b'') 2,
      checkUrl ''c'' (Response (Some (403, ''Forbidden'')) None) 3])).
      the (byStatus (generateReport ''t''
     [checkUrl ''a'' (Response (Some (200, ''OK'')) None) 1,
      checkUrl ''b'' (Thrown ''net::ERR_NAME_NOT_RESOLVED at b'') 2,
      checkUrl ''c'' (Response (Some (403, ''Forbidden'')) None) 3]) k)) = 3"
  using report_totals [of "''t''" "[checkUrl ''a'' (Response (Some (200, ''OK'')) None) 1,
      checkUrl ''b'' (Thrown ''net::ERR_NAME_NOT_RESOLVED at b'') 2,
      checkUrl ''c'' (Response (Some (403, ''Forbidden'')) None) 3]"]
  by (simp add: generateReport_def Let_def report_body_def count_status_def checkUrl_def failure_def num_or_def summary0_def)

text \<open>
  C7 (as amended). The results of the report are the given results stably sorted by the
  key \<open>status || 999\<close>: ascending in the key, the same results, those of equal key in
  their order of arrival. So a result with no status, or status 0, comes after every
  result whose status is between 1 and 998.
\<close>

theorem results_sorted_by_key:
  "sorted (map sort_status (results (generateReport now rs))) \<and>
   mset (results (generateReport now rs)) = mset rs \<and>
   (\<forall>k. filter (\<lambda>r. sort_status r = k) (results (generateReport now rs)) =
        filter (\<lambda>r. sort_status r = k) rs) \<and>
   results (generateReport now rs) = sort_key (\<lambda>r. num_or (status r) 999) rs \<and>
   (\<forall>i j. i < length rs \<and> j < length rs \<and>
      num_or (status (results (generateReport now rs) ! i)) 0 = 0 \<and>
      0 < num_or (status (results (generateReport now rs) ! j)) 0 \<and>
      num_or (status (results (generateReport now rs) ! j)) 0 < 999 \<longrightarrow> j < i)"
proof -
  have r: "results (generateReport now rs) = sort_by by_status rs"
    by (simp add: generateReport_def Let_def)
  have srt: "sorted (map sort_status (sort_by by_status rs))"
    and ms: "mset (sort_by by_status rs) = mset rs"
    and st: "\<And>k. filter (\<lambda>r. sort_status r = k) (sort_by by_status rs) =
        filter (\<lambda>r. sort_status r = k) rs"
    by (rule sort_by_status_props)+
  have len: "length (sort_by by_status rs) = length rs"
    using ms by (metis size_mset)
  have key: "sort_by by_status rs = sort_key (\<lambda>r. num_or (status r) 999) rs"
    using sort_by_status_sort_key [of rs] by (simp add: sort_status_def [abs_def])
  have last: "\<forall>i j. i < length rs \<and> j < length rs \<and>
      num_or (status (sort_by by_status rs ! i)) 0 = 0 \<and>
      0 < num_or (status (sort_by by_status rs ! j)) 0 \<and>
      num_or (status (sort_by by_status rs ! j)) 0 < 999 \<longrightarrow> j < i"
    using sorted_missing_last [OF srt] len by auto
  show ?thesis
    unfolding r using srt ms st key last by blast
qed

theorem results_sorted_by_key_witness:
  "results (generateReport ''t''
     [checkUrl ''a'' (Thrown ''boom'') 1,
      checkUrl ''b'' (Response (Some (404, ''Not Found'')) None) 2,
      checkUrl ''c'' (Thrown ''Navigation timeout of 15000 ms exceeded'') 3,
      checkUrl ''d'' (Response (Some (200, ''OK'')) None) 4,
      checkUrl ''e'' (Response (Some (404, ''Not Found'')) None) 5]) =
   [checkUrl ''d'' (Response (Some (200, ''OK'')) None) 4,
    checkUrl ''b'' (Response (Some (404, ''Not Found'')) None) 2,
    checkUrl ''e'' (Response (Some (404, ''Not Found'')) None) 5,
    checkUrl ''a'' (Thrown ''boom'') 1,
    checkUrl ''c'' (Thrown ''Navigation timeout of 15000 ms exceeded'') 3]"
  using results_sorted_by_key [of "''t''" "[checkUrl ''a'' (Thrown ''boom'') 1,
      checkUrl ''b'' (Response (Some (404, ''Not Found'')) None) 2,
      checkUrl ''c'' (Thrown ''Navigation timeout of 15000 ms exceeded'') 3,
      checkUrl ''d'' (Response (Some (200, ''OK'')) None) 4,
      checkUrl ''e'' (Response (Some (404, ''Not Found'')) None) 5]"]
  by (simp add: checkUrl_def failure_def num_or_def)

text \<open>
  A result with no status that arrived first stays before a result with status 999.
\<close>

theorem missing_status_not_last_counterexample:
  "results (generateReport ''t''
     [checkUrl ''https://a.example'' (Thrown ''net::ERR_CERT_DATE_INVALID at https://a.example'') 40,
      checkUrl ''https://www.linkedin.com/company/x'' (Response (Some (999, ''Request denied'')) None) 80]) =
     [checkUrl ''https://a.example'' (Thrown ''net::ERR_CERT_DATE_INVALID at https://a.example'') 40,
      checkUrl ''https://www.linkedin.com/company/x'' (Response (Some (999, ''Request denied'')) None) 80] \<and>
   status (checkUrl ''https://a.example'' (Thrown ''net::ERR_CERT_DATE_INVALID at https://a.example'') 40) = None \<and>
   status (checkUrl ''https://www.linkedin.com/company/x'' (Response (Some (999, ''Request denied'')) None) 80) = Some 999"
  by (simp add: generateReport_def Let_def sort_by_def by_status_def checkUrl_def failure_def num_or_def)

section \<open>The claims about the worker pool\<close>

text \<open>
  C3. For every list of targets (absolute http or https URLs) given to a pool of at least
  one worker, as every configuration of \<open>main\<close> has: when \<open>processUrls\<close> returns, its results,
  and the results of the report made from them, are as many as the targets, one for each
  target. When the list has no duplicate, \<open>checkUrl\<close> has returned once or twice for each
  target (twice exactly when the first time gave status 0 and a retry is allowed, never
  more than one plus the retry budget), and the one result of the target is what the last
  of these calls returned. \<open>processUrls\<close> can return: a run lasts no more than twice the
  number of workers plus three times the number of targets events, and as long as no page
  set-up and no \<open>page.close()\<close> has rejected it can be continued until every worker has
  returned.
\<close>

theorem processUrls_one_result_per_target:
  assumes "0 < concurrency cfg" and "\<forall>t\<in>set urls. http_target t"
  shows "(\<exists>es rs. processUrls cfg urls es = Some (Inr rs)) \<and>
         (\<forall>es s. run cfg es (init cfg urls) = Some s \<longrightarrow>
            length es \<le> 2 * concurrency cfg + 3 * length urls \<and>
            (rejected s = None \<longrightarrow>
               (\<exists>fs rs. processUrls cfg urls (es @ fs) = Some (Inr rs)))) \<and>
         (\<forall>es rs. processUrls cfg urls es = Some (Inr rs) \<longrightarrow>
            length (results (generateReport now rs)) = length urls \<and>
            length rs = length urls \<and>
            mset (map url rs) = mset (map the urls) \<and>
            (distinct urls \<longrightarrow>
               (\<forall>u. Some u \<in> set urls \<longrightarrow>
                  filter (\<lambda>r. url r = u) (attempts cfg es (init cfg urls)) \<noteq> [] \<and>
                  length (filter (\<lambda>r. url r = u) (attempts cfg es (init cfg urls))) \<le> 2 \<and>
                  length (filter (\<lambda>r. url r = u) (attempts cfg es (init cfg urls)))
                    \<le> 1 + retries cfg \<and>
                  (length (filter (\<lambda>r. url r = u) (attempts cfg es (init cfg urls))) = 2 \<longleftrightarrow>
                     status (hd (filter (\<lambda>r. url r = u) (attempts cfg es (init cfg urls)))) = Some 0
                     \<and> 0 < retries cfg) \<and>
                  filter (\<lambda>r. url r = u) rs =
                    [last (filter (\<lambda>r. url r = u) (attempts cfg es (init cfg urls)))])))"
proof (intro conjI allI impI)
  have t: "\<forall>t\<in>set urls. \<not> falsy t" using assms(2) http_target_truthy by blast
  have "run cfg [] (init cfg urls) = Some (init cfg urls)" by simp
  moreover have "rejected (init cfg urls) = None" by (simp add: init_def)
  ultimately have "\<exists>fs rs. processUrls cfg urls ([] @ fs) = Some (Inr rs)"
    by (rule run_extends)
  then show "\<exists>es rs. processUrls cfg urls es = Some (Inr rs)" by simp
next
  fix es s assume r: "run cfg es (init cfg urls) = Some s"
  show "length es \<le> 2 * concurrency cfg + 3 * length urls"
    using steps_left_run [OF r] by (simp add: steps_left_init)
next
  fix es s assume "run cfg es (init cfg urls) = Some s" "rejected s = None"
  then show "\<exists>fs rs. processUrls cfg urls (es @ fs) = Some (Inr rs)"
    by (rule run_extends)
next
  fix es rs assume p: "processUrls cfg urls es = Some (Inr rs)"
  have t: "\<forall>t\<in>set urls. \<not> falsy t" using assms(2) http_target_truthy by blast
  have m: "mset (map url rs) = mset (map the urls)"
    using assms(1) t p by (rule processUrls_accounts)
  then have "size (mset (map url rs)) = size (mset (map the urls))" by simp
  then have l: "length rs = length urls" by simp
  have "mset (results (generateReport now rs)) = mset rs"
    by (simp add: generateReport_def Let_def sort_by_status_props)
  then have "size (mset (results (generateReport now rs))) = size (mset rs)" by simp
  then have lr: "length (results (generateReport now rs)) = length rs" by simp
  show "length (results (generateReport now rs)) = length urls" using lr l by simp
  show "length rs = length urls" by (rule l)
  show "mset (map url rs) = mset (map the urls)" by (rule m)
  fix u assume d: "distinct urls" and u: "Some u \<in> set urls"
  let ?a = "filter (\<lambda>r. url r = u) (attempts cfg es (init cfg urls))"
  have "settled cfg (about u (attempts cfg es (init cfg urls))) (about u rs)"
    using assms(1) t d p u by (rule processUrls_settled)
  then have s: "settled cfg ?a (filter (\<lambda>r. url r = u) rs)" by (simp add: about_def)
  note l = settled_last [OF s]
  show "?a \<noteq> []" using l by simp
  show "length ?a \<le> 2" using l by simp
  show "length ?a \<le> 1 + retries cfg" using l by simp
  show "filter (\<lambda>r. url r = u) rs = [last ?a]" using l by simp
  show "(length ?a = 2) = (status (hd ?a) = Some 0 \<and> 0 < retries cfg)" using l by simp
qed

theorem processUrls_one_result_per_target_witness:
  "processUrls (CONFIG\<lparr>concurrency := 2\<rparr>) [Some ''http://a'', Some ''http://b'']
     [(0, Resolved), (1, Resolved),
      (1, Navigated (Response (Some (200, ''OK'')) (Some ''B'')) 7),
      (0, Navigated (Thrown ''net::ERR_CONNECTION_REFUSED at http://a'') 9),
      (1, Resolved), (0, Resolved),
      (0, Navigated (Response (Some (404, ''Not Found'')) None) 11),
      (0, Resolved)] =
   Some (Inr [checkUrl ''http://b'' (Response (Some (200, ''OK'')) (Some ''B'')) 7,
              checkUrl ''http://a'' (Response (Some (404, ''Not Found'')) None) 11]) \<and>
   length (results (generateReport ''t''
        [checkUrl ''http://b'' (Response (Some (200, ''OK'')) (Some ''B'')) 7,
         checkUrl ''http://a'' (Response (Some (404, ''Not Found'')) None) 11])) = 2 \<and>
   filter (\<lambda>r. url r = ''http://a'')
     (attempts (CONFIG\<lparr>concurrency := 2\<rparr>)
        [(0, Resolved), (1, Resolved),
         (1, Navigated (Response (Some (200, ''OK'')) (Some ''B'')) 7),
         (0, Navigated (Thrown ''net::ERR_CONNECTION_REFUSED at http://a'') 9),
         (1, Resolved), (0, Resolved),
         (0, Navigated (Response (Some (404, ''Not Found'')) None) 11),
         (0, Resolved)]
        (init (CONFIG\<lparr>concurrency := 2\<rparr>) [Some ''http://a'', Some ''http://b''])) =
     [checkUrl ''http://a'' (Thrown ''net::ERR_CONNECTION_REFUSED at http://a'') 9,
      checkUrl ''http://a'' (Response (Some (404, ''Not Found'')) None) 11] \<and>
   filter (\<lambda>r. url r = ''http://a'')
        [checkUrl ''http://b'' (Response (Some (200, ''OK'')) (Some ''B'')) 7,
         checkUrl ''http://a'' (Response (Some (404, ''Not Found'')) None) 11] =
     [checkUrl ''http://a'' (Response (Some (404, ''Not Found'')) None) 11]"
proof -
  let ?cfg = "CONFIG\<lparr>concurrency := 2\<rparr>"
  let ?urls = "[Some ''http://a'', Some ''http://b'']"
  let ?es = "[(0, Resolved), (1, Resolved),
      (1, Navigated (Response (Some (200, ''OK'')) (Some ''B'')) 7),
      (0, Navigated (Thrown ''net::ERR_CONNECTION_REFUSED at http://a'') 9),
      (1, Resolved), (0, Resolved),
      (0, Navigated (Response (Some (404, ''Not Found'')) None) 11),
      (0, Resolved)]"
  let ?rs = "[checkUrl ''http://b'' (Response (Some (200, ''OK'')) (Some ''B'')) 7,
              checkUrl ''http://a'' (Response (Some (404, ''Not Found'')) None) 11]"
  have c: "0 < concurrency ?cfg" by simp
  have h: "\<forall>t\<in>set ?urls. http_target t" by (simp add: http_target_def)
  have d: "distinct ?urls" by simp
  have u: "Some ''http://a'' \<in> set ?urls" by simp
  have e: "processUrls ?cfg ?urls ?es = Some (Inr ?rs)" by code_simp
  have a: "filter (\<lambda>r. url r = ''http://a'') (attempts ?cfg ?es (init ?cfg ?urls)) =
     [checkUrl ''http://a'' (Thrown ''net::ERR_CONNECTION_REFUSED at http://a'') 9,
      checkUrl ''http://a'' (Response (Some (404, ''Not Found'')) None) 11]"
    by code_simp
  note T = processUrls_one_result_per_target [OF c h, of "''t''", THEN conjunct2, THEN conjunct2,
      rule_format, OF e]
  have n: "length (results (generateReport ''t'' ?rs)) = 2"
    using T [THEN conjunct1] by simp
  have f: "filter (\<lambda>r. url r = ''http://a'') ?rs =
      [last (filter (\<lambda>r. url r = ''http://a'') (attempts ?cfg ?es (init ?cfg ?urls)))]"
    using T [THEN conjunct2, THEN conjunct2, THEN conjunct2, rule_format, OF d u] by blast
  have g: "filter (\<lambda>r. url r = ''http://a'') ?rs =
      [checkUrl ''http://a'' (Response (Some (404, ''Not Found'')) None) 11]"
    using f unfolding a by simp
  show ?thesis using e n a g by (intro conjI)
qed

text \<open>
  C6. The option \<open>-c\<close>/\<open>--concurrency\<close> is accepted when \<open>parseInt\<close> reads from it an
  integer from 1 to 20, which becomes the number of workers, and is refused with the
  message of the fatal exit when it reads no number or one outside that range: so for
  the decimal numeral of 0, of any number above 20 and of any negative number. Without
  the option the number stays 5. In every state of every run there are exactly that many
  workers, so no more than that many navigations are in flight at once.
\<close>

theorem concurrency_bound:
  "(\<forall>cfg. parse_concurrency args CONFIG = Inr cfg \<longrightarrow>
      1 \<le> concurrency cfg \<and> concurrency cfg \<le> 20) \<and>
   (\<forall>a. getArg args [''-c'', ''--concurrency''] = Some a \<and>
        (\<forall>n. parseInt a = Some n \<longrightarrow> n < 1 \<or> 20 < n) \<longrightarrow>
      parse_concurrency args CONFIG = Inl ''Concurrency must be between 1 and 20'') \<and>
   (\<forall>a n. getArg args [''-c'', ''--concurrency''] = Some a \<and> parseInt a = Some n \<and>
        1 \<le> n \<and> n \<le> 20 \<longrightarrow>
      parse_concurrency args CONFIG = Inr (CONFIG\<lparr>concurrency := nat n\<rparr>)) \<and>
   (\<forall>n. getArg args [''-c'', ''--concurrency''] = Some (decimal n) \<longrightarrow>
      parse_concurrency args CONFIG =
        (if 1 \<le> n \<and> n \<le> 20 then Inr (CONFIG\<lparr>concurrency := n\<rparr>)
         else Inl ''Concurrency must be between 1 and 20'')) \<and>
   (\<forall>n. getArg args [''-c'', ''--concurrency''] = Some (CHR ''-'' # decimal n) \<longrightarrow>
      parse_concurrency args CONFIG = Inl ''Concurrency must be between 1 and 20'') \<and>
   (getArg args [''-c'', ''--concurrency''] = None \<longrightarrow> parse_concurrency args CONFIG = Inr CONFIG) \<and>
   (\<forall>cfg urls es s. run cfg es (init cfg urls) = Some s \<longrightarrow>
      length (workers s) = concurrency cfg \<and> in_flight s \<le> concurrency cfg)"
proof (intro conjI allI impI)
  fix cfg assume "parse_concurrency args CONFIG = Inr cfg"
  then show "1 \<le> concurrency cfg" "concurrency cfg \<le> 20"
    by (auto simp: parse_concurrency_def CONFIG_def split: option.splits if_splits)
next
  fix a assume "getArg args [''-c'', ''--concurrency''] = Some a \<and>
        (\<forall>n. parseInt a = Some n \<longrightarrow> n < 1 \<or> 20 < n)"
  then show "parse_concurrency args CONFIG = Inl ''Concurrency must be between 1 and 20''"
    by (auto simp: parse_concurrency_def split: option.splits)
next
  fix a n assume "getArg args [''-c'', ''--concurrency''] = Some a \<and> parseInt a = Some n \<and>
        1 \<le> n \<and> n \<le> 20"
  then show "parse_concurrency args CONFIG = Inr (CONFIG\<lparr>concurrency := nat n\<rparr>)"
    by (auto simp: parse_concurrency_def)
next
  fix n assume "getArg args [''-c'', ''--concurrency''] = Some (decimal n)"
  then show "parse_concurrency args CONFIG =
        (if 1 \<le> n \<and> n \<le> 20 then Inr (CONFIG\<lparr>concurrency := n\<rparr>)
         else Inl ''Concurrency must be between 1 and 20'')"
    by (auto simp: parse_concurrency_def parseInt_decimal)
next
  fix n assume "getArg args [''-c'', ''--concurrency''] = Some (CHR ''-'' # decimal n)"
  then show "parse_concurrency args CONFIG = Inl ''Concurrency must be between 1 and 20''"
    by (simp add: parse_concurrency_def parseInt_minus_decimal)
next
  assume "getArg args [''-c'', ''--concurrency''] = None"
  then show "parse_concurrency args CONFIG = Inr CONFIG"
    by (simp add: parse_concurrency_def)
next
  fix cfg urls es s assume r: "run cfg es (init cfg urls) = Some s"
  show "length (workers s) = concurrency cfg"
    using length_workers_run [OF r] by (simp add: init_def)
  show "in_flight s \<le> concurrency cfg" using r by (rule in_flight_run)
qed

theorem concurrency_bound_witness:
  "parse_concurrency [''refs.md'', ''-c'', ''10''] CONFIG = Inr (CONFIG\<lparr>concurrency := 10\<rparr>) \<and>
   parse_concurrency [''refs.md'', ''-c'', ''21''] CONFIG = Inl ''Concurrency must be between 1 and 20'' \<and>
   parse_concurrency [''refs.md'', ''--concurrency'', ''0''] CONFIG = Inl ''Concurrency must be between 1 and 20'' \<and>
   parse_concurrency [''refs.md'', ''-c'', ''many''] CONFIG = Inl ''Concurrency must be between 1 and 20'' \<and>
   parse_concurrency [''-c'', decimal 1000] CONFIG = Inl ''Concurrency must be between 1 and 20'' \<and>
   in_flight \<lparr>queue = [], pushed = [], workers = [Fetch1 ''http://a'', Fetch1 ''http://b''],
              rejected = None\<rparr> \<le> 2"
proof -
  have g: "getArg [''refs.md'', ''-c'', ''10''] [''-c'', ''--concurrency''] = Some ''10''"
      "getArg [''refs.md'', ''-c'', ''21''] [''-c'', ''--concurrency''] = Some ''21''"
      "getArg [''refs.md'', ''--concurrency'', ''0''] [''-c'', ''--concurrency''] = Some ''0''"
      "getArg [''refs.md'', ''-c'', ''many''] [''-c'', ''--concurrency''] = Some ''many''"
    by code_simp+
  have g': "getArg [''-c'', decimal 1000] [''-c'', ''--concurrency''] = Some (decimal 1000)"
    using decimal_nonempty [of 1000] by (simp add: at_def)
  have p: "parseInt ''10'' = Some 10" "parseInt ''21'' = Some 21" "parseInt ''0'' = Some 0"
      "parseInt ''many'' = None"
    by code_simp+
  have r: "run (CONFIG\<lparr>concurrency := 2\<rparr>) [(0, Resolved), (1, Resolved)]
             (init (CONFIG\<lparr>concurrency := 2\<rparr>) [Some ''http://a'', Some ''http://b'']) =
           Some \<lparr>queue = [], pushed = [], workers = [Fetch1 ''http://a'', Fetch1 ''http://b''],
                 rejected = None\<rparr>"
    by code_simp
  have a: "parse_concurrency [''refs.md'', ''-c'', ''10''] CONFIG = Inr (CONFIG\<lparr>concurrency := 10\<rparr>)"
    using concurrency_bound [of "[''refs.md'', ''-c'', ''10'']", THEN conjunct2, THEN conjunct2,
        THEN conjunct1, rule_format, of "''10''" 10] g(1) p(1)
    by simp
  have b: "parse_concurrency [''refs.md'', ''-c'', ''21''] CONFIG = Inl ''Concurrency must be between 1 and 20''"
    using concurrency_bound [of "[''refs.md'', ''-c'', ''21'']", THEN conjunct2, THEN conjunct1,
        rule_format, of "''21''"] g(2) p(2)
    by simp
  have c: "parse_concurrency [''refs.md'', ''--concurrency'', ''0''] CONFIG = Inl ''Concurrency must be between 1 and 20''"
    using concurrency_bound [of "[''refs.md'', ''--concurrency'', ''0'']", THEN conjunct2, THEN conjunct1,
        rule_format, of "''0''"] g(3) p(3)
    by simp
  have d: "parse_concurrency [''refs.md'', ''-c'', ''many''] CONFIG = Inl ''Concurrency must be between 1 and 20''"
    using concurrency_bound [of "[''refs.md'', ''-c'', ''many'']", THEN conjunct2, THEN conjunct1,
        rule_format, of "''many''"] g(4) p(4)
    by simp
  have d': "parse_concurrency [''-c'', decimal 1000] CONFIG = Inl ''Concurrency must be between 1 and 20''"
    using concurrency_bound [of "[''-c'', decimal 1000]", THEN conjunct2, THEN conjunct2,
        THEN conjunct2, THEN conjunct1, rule_format, of 1000] g'
    by simp
  have e: "in_flight \<lparr>queue = [], pushed = [], workers = [Fetch1 ''http://a'', Fetch1 ''http://b''],
                     rejected = None\<rparr> \<le> 2"
    using concurrency_bound [of "[]", THEN conjunct2, THEN conjunct2, THEN conjunct2,
        THEN conjunct2, THEN conjunct2, THEN conjunct2, rule_format, OF r]
    by simp
  show ?thesis using a b c d d' e by simp
qed

text \<open>
  C2, at the failing input. With the default budget of one retry, a navigation that
  fails with an error text of none of the four recognised kinds leaves the status null;
  the test \<open>result.status === 0\<close> is then false, the result is pushed at once and the
  target is not attempted again.
\<close>

theorem unknown_error_not_retried:
  "retries CONFIG = 1 \<and>
   status (checkUrl ''https://a.example'' (Thrown ''net::ERR_CERT_DATE_INVALID at https://a.example'') 40) = None \<and>
   resume CONFIG 0 (Navigated (Thrown ''net::ERR_CERT_DATE_INVALID at https://a.example'') 40)
     \<lparr>queue = [], pushed = [], workers = [Fetch1 ''https://a.example''], rejected = None\<rparr> =
   Some \<lparr>queue = [],
         pushed = [\<lparr>url = ''https://a.example'', status = None, statusText = None, title = None,
                    error = Some ''net::ERR_CERT_DATE_INVALID at https://a.example'',
                    time = Some 40\<rparr>],
         workers = [Closing], rejected = None\<rparr> \<and>
   processUrls (CONFIG\<lparr>concurrency := 1\<rparr>) [Some ''https://a.example'']
     [(0, Resolved),
      (0, Navigated (Thrown ''net::ERR_CERT_DATE_INVALID at https://a.example'') 40),
      (0, Resolved)] =
   Some (Inr [\<lparr>url = ''https://a.example'', status = None, statusText = None, title = None,
               error = Some ''net::ERR_CERT_DATE_INVALID at https://a.example'',
               time = Some 40\<rparr>])"
  by code_simp

text \<open>
  C4 (as amended). The result object has the properties url, status, statusText, title,
  error and time, and no retryCount. With a positive retry budget, a target whose first
  attempt ends with status 0 is attempted exactly once more after the pause: the worker
  pushes what the second \<open>checkUrl\<close> returns, whatever it is, and goes on to the next
  target or closes its page; so in a run over targets without duplicate that
  \<open>processUrls\<close> returns from, such a target has two attempts and the second is its
  result. When that result has status 0 or no status, it is counted in the bucket failed.
\<close>

theorem second_attempt_retained:
  assumes i: "i < length (workers s)" and w: "workers s ! i = Fetch1 u"
    and budget: "0 < retries cfg"
    and first: "status (checkUrl u nav1 ms1) = Some 0"
  shows "(\<exists>s1 s2 s3.
           resume cfg i (Navigated nav1 ms1) s = Some s1 \<and> pushed s1 = pushed s \<and>
           workers s1 ! i = Backoff u \<and>
           resume cfg i Resolved s1 = Some s2 \<and> pushed s2 = pushed s \<and>
           workers s2 ! i = Fetch2 u \<and>
           resume cfg i (Navigated nav2 ms2) s2 = Some s3 \<and>
           pushed s3 = pushed s @ [checkUrl u nav2 ms2] \<and>
           s3 = loop_head i (push (checkUrl u nav2 ms2) s2) \<and>
           (workers s3 ! i = Closing \<or> (\<exists>v. workers s3 ! i = Fetch1 v))) \<and>
         (\<forall>urls es rs v.
            0 < concurrency cfg \<and> (\<forall>t\<in>set urls. \<not> falsy t) \<and> distinct urls \<and>
            processUrls cfg urls es = Some (Inr rs) \<and> Some v \<in> set urls \<and>
            status (hd (filter (\<lambda>r. url r = v) (attempts cfg es (init cfg urls)))) = Some 0 \<longrightarrow>
              length (filter (\<lambda>r. url r = v) (attempts cfg es (init cfg urls))) = 2 \<and>
              filter (\<lambda>r. url r = v) rs =
                [filter (\<lambda>r. url r = v) (attempts cfg es (init cfg urls)) ! 1]) \<and>
         (num_or (status (checkUrl u nav2 ms2)) 0 = 0 \<longrightarrow>
            fst (report_body (sm, m) (checkUrl u nav2 ms2)) = sm\<lparr>failed := failed sm + 1\<rparr>) \<and>
         map fst (result_object (checkUrl u nav2 ms2)) =
           [''url'', ''status'', ''statusText'', ''title'', ''error'', ''time'']"
proof (intro conjI allI impI)
  let ?s1 = "goto_pc i (Backoff u) s"
  let ?s2 = "goto_pc i (Fetch2 u) ?s1"
  let ?r = "checkUrl u nav2 ms2"
  let ?s3 = "loop_head i (push ?r ?s2)"
  have r1: "resume cfg i (Navigated nav1 ms1) s = Some ?s1"
    using i w budget first by (simp add: resume_def Let_def)
  have w1: "workers ?s1 ! i = Backoff u" "pushed ?s1 = pushed s" "i < length (workers ?s1)"
    using i by (simp_all add: goto_pc_def)
  have r2: "resume cfg i Resolved ?s1 = Some ?s2"
    using w1 by (simp add: resume_def)
  have w2: "workers ?s2 ! i = Fetch2 u" "pushed ?s2 = pushed s" "i < length (workers ?s2)"
    using i by (simp_all add: goto_pc_def)
  have r3: "resume cfg i (Navigated nav2 ms2) ?s2 = Some ?s3"
    using w2 by (simp add: resume_def)
  have p3: "pushed ?s3 = pushed s @ [?r]"
    using w2(2) by (simp add: loop_head_def goto_pc_def push_def split: list.splits option.splits)
  have n3: "workers ?s3 ! i = Closing \<or> (\<exists>v. workers ?s3 ! i = Fetch1 v)"
    using i by (simp add: loop_head_def goto_pc_def push_def split: list.splits option.splits)
  show "\<exists>s1 s2 s3.
           resume cfg i (Navigated nav1 ms1) s = Some s1 \<and> pushed s1 = pushed s \<and>
           workers s1 ! i = Backoff u \<and>
           resume cfg i Resolved s1 = Some s2 \<and> pushed s2 = pushed s \<and>
           workers s2 ! i = Fetch2 u \<and>
           resume cfg i (Navigated nav2 ms2) s2 = Some s3 \<and>
           pushed s3 = pushed s @ [checkUrl u nav2 ms2] \<and>
           s3 = loop_head i (push (checkUrl u nav2 ms2) s2) \<and>
           (workers s3 ! i = Closing \<or> (\<exists>v. workers s3 ! i = Fetch1 v))"
    by (rule exI [of _ ?s1], rule exI [of _ ?s2], rule exI [of _ ?s3])
       (intro conjI r1 w1(1) w1(2) r2 w2(1) w2(2) r3 p3 n3 refl)
next
  fix urls es rs v
  assume a: "0 < concurrency cfg \<and> (\<forall>t\<in>set urls. \<not> falsy t) \<and> distinct urls \<and>
            processUrls cfg urls es = Some (Inr rs) \<and> Some v \<in> set urls \<and>
            status (hd (filter (\<lambda>r. url r = v) (attempts cfg es (init cfg urls)))) = Some 0"
  let ?a = "filter (\<lambda>r. url r = v) (attempts cfg es (init cfg urls))"
  have "settled cfg (about v (attempts cfg es (init cfg urls))) (about v rs)"
    using a by (intro processUrls_settled) simp_all
  then have s: "settled cfg ?a (filter (\<lambda>r. url r = v) rs)" by (simp add: about_def)
  have two: "length ?a = 2" using settled_last [OF s] a budget by simp
  show "length ?a = 2" by (rule two)
  have ne: "?a \<noteq> []" using two by auto
  have "last ?a = ?a ! 1" using two by (simp add: last_conv_nth [OF ne])
  then show "filter (\<lambda>r. url r = v) rs = [?a ! 1]" using settled_last [OF s] by simp
next
  assume "num_or (status (checkUrl u nav2 ms2)) 0 = 0"
  then show "fst (report_body (sm, m) (checkUrl u nav2 ms2)) = sm\<lparr>failed := failed sm + 1\<rparr>"
    by (simp add: report_body_def Let_def count_status_def)
next
  show "map fst (result_object (checkUrl u nav2 ms2)) =
           [''url'', ''status'', ''statusText'', ''title'', ''error'', ''time'']"
    by (simp add: result_object_def)
qed

theorem second_attempt_retained_witness:
  "resume CONFIG 0 (Navigated (Thrown ''net::ERR_NAME_NOT_RESOLVED at http://gone.example'') 40)
      \<lparr>queue = [], pushed = [], workers = [Fetch1 ''http://gone.example''], rejected = None\<rparr> =
     Some \<lparr>queue = [], pushed = [], workers = [Backoff ''http://gone.example''],
           rejected = None\<rparr> \<and>
   resume CONFIG 0 Resolved
      \<lparr>queue = [], pushed = [], workers = [Backoff ''http://gone.example''], rejected = None\<rparr> =
     Some \<lparr>queue = [], pushed = [], workers = [Fetch2 ''http://gone.example''],
           rejected = None\<rparr> \<and>
   resume CONFIG 0 (Navigated (Response (Some (200, ''OK'')) (Some ''Back'')) 120)
      \<lparr>queue = [], pushed = [], workers = [Fetch2 ''http://gone.example''], rejected = None\<rparr> =
     Some \<lparr>queue = [],
           pushed = [checkUrl ''http://gone.example'' (Response (Some (200, ''OK'')) (Some ''Back'')) 120],
           workers = [Closing], rejected = None\<rparr> \<and>
   fst (report_body (summary0 1, Map.empty)
          (checkUrl ''http://gone.example'' (Thrown ''Navigation timeout of 15000 ms exceeded'') 15001)) =
     (summary0 1)\<lparr>failed := 1\<rparr> \<and>
   length (filter (\<lambda>r. url r = ''http://gone.example'')
     (attempts CONFIG
        [(0, Resolved), (1, Resolved), (2, Resolved), (3, Resolved), (4, Resolved),
         (0, Navigated (Thrown ''net::ERR_NAME_NOT_RESOLVED at http://gone.example'') 40),
         (1, Resolved), (2, Resolved), (3, Resolved), (4, Resolved), (0, Resolved),
         (0, Navigated (Response (Some (200, ''OK'')) (Some ''Back'')) 120), (0, Resolved)]
        (init CONFIG [Some ''http://gone.example'']))) = 2 \<and>
   filter (\<lambda>r. url r = ''http://gone.example'')
     [checkUrl ''http://gone.example'' (Response (Some (200, ''OK'')) (Some ''Back'')) 120] =
   [filter (\<lambda>r. url r = ''http://gone.example'')
     (attempts CONFIG
        [(0, Resolved), (1, Resolved), (2, Resolved), (3, Resolved), (4, Resolved),
         (0, Navigated (Thrown ''net::ERR_NAME_NOT_RESOLVED at http://gone.example'') 40),
         (1, Resolved), (2, Resolved), (3, Resolved), (4, Resolved), (0, Resolved),
         (0, Navigated (Response (Some (200, ''OK'')) (Some ''Back'')) 120), (0, Resolved)]
        (init CONFIG [Some ''http://gone.example''])) ! 1]"
proof -
  let ?s = "\<lparr>queue = [], pushed = [], workers = [Fetch1 ''http://gone.example''],
             rejected = None\<rparr>"
  let ?ok = "Response (Some (200, ''OK'')) (Some ''Back'')"
  have i: "0 < length (workers ?s)" and w: "workers ?s ! 0 = Fetch1 ''http://gone.example''"
    by simp_all
  have budget: "0 < retries CONFIG" by (simp add: CONFIG_def)
  have first: "status (checkUrl ''http://gone.example''
      (Thrown ''net::ERR_NAME_NOT_RESOLVED at http://gone.example'') 40) = Some 0"
    by code_simp
  have second: "num_or (status (checkUrl ''http://gone.example''
      (Thrown ''Navigation timeout of 15000 ms exceeded'') 15001)) 0 = 0"
    by code_simp
  have e: "goto_pc 0 (Backoff ''http://gone.example'') ?s =
             \<lparr>queue = [], pushed = [], workers = [Backoff ''http://gone.example''],
              rejected = None\<rparr>"
     "goto_pc 0 (Fetch2 ''http://gone.example'')
        \<lparr>queue = [], pushed = [], workers = [Backoff ''http://gone.example''], rejected = None\<rparr> =
             \<lparr>queue = [], pushed = [], workers = [Fetch2 ''http://gone.example''],
              rejected = None\<rparr>"
     "loop_head 0 (push r \<lparr>queue = [], pushed = [], workers = [Fetch2 ''http://gone.example''],
                           rejected = None\<rparr>) =
             \<lparr>queue = [], pushed = [r], workers = [Closing], rejected = None\<rparr>" for r
    by (simp_all add: goto_pc_def loop_head_def push_def)
  note T = second_attempt_retained [OF i w budget first]
  from T [of ?ok 120, THEN conjunct1]
  obtain s1 s2 s3 where
    r1: "resume CONFIG 0 (Navigated (Thrown ''net::ERR_NAME_NOT_RESOLVED at http://gone.example'') 40) ?s
           = Some s1"
    and r2: "resume CONFIG 0 Resolved s1 = Some s2"
    and r3: "resume CONFIG 0 (Navigated ?ok 120) s2 = Some s3"
    and s3: "s3 = loop_head 0 (push (checkUrl ''http://gone.example'' ?ok 120) s2)"
    by blast
  have k1: "resume CONFIG 0 (Navigated (Thrown ''net::ERR_NAME_NOT_RESOLVED at http://gone.example'') 40) ?s =
      Some \<lparr>queue = [], pushed = [], workers = [Backoff ''http://gone.example''],
            rejected = None\<rparr>"
    using first budget by (simp add: resume_def Let_def e)
  have k2: "resume CONFIG 0 Resolved
      \<lparr>queue = [], pushed = [], workers = [Backoff ''http://gone.example''], rejected = None\<rparr> =
      Some \<lparr>queue = [], pushed = [], workers = [Fetch2 ''http://gone.example''],
            rejected = None\<rparr>"
    by (simp add: resume_def e)
  have s1: "s1 = \<lparr>queue = [], pushed = [], workers = [Backoff ''http://gone.example''],
                  rejected = None\<rparr>"
    using r1 k1 by simp
  have s2: "s2 = \<lparr>queue = [], pushed = [], workers = [Fetch2 ''http://gone.example''],
                  rejected = None\<rparr>"
    using r2 k2 s1 by simp
  have k3: "resume CONFIG 0 (Navigated ?ok 120)
      \<lparr>queue = [], pushed = [], workers = [Fetch2 ''http://gone.example''], rejected = None\<rparr> =
      Some \<lparr>queue = [], pushed = [checkUrl ''http://gone.example'' ?ok 120],
            workers = [Closing], rejected = None\<rparr>"
    using r3 s3 s2 by (simp add: e)
  have f: "fst (report_body (summary0 1, Map.empty)
          (checkUrl ''http://gone.example'' (Thrown ''Navigation timeout of 15000 ms exceeded'') 15001)) =
     (summary0 1)\<lparr>failed := 1\<rparr>"
    using T [of "Thrown ''Navigation timeout of 15000 ms exceeded''" 15001 "summary0 1" Map.empty,
        THEN conjunct2, THEN conjunct2, THEN conjunct1] second
    by (simp add: summary0_def)
  let ?urls = "[Some ''http://gone.example'']"
  let ?es = "[(0, Resolved), (1, Resolved), (2, Resolved), (3, Resolved), (4, Resolved),
         (0, Navigated (Thrown ''net::ERR_NAME_NOT_RESOLVED at http://gone.example'') 40),
         (1, Resolved), (2, Resolved), (3, Resolved), (4, Resolved), (0, Resolved),
         (0, Navigated ?ok 120), (0, Resolved)]"
  let ?rs = "[checkUrl ''http://gone.example'' ?ok 120]"
  have c: "0 < concurrency CONFIG" by (simp add: CONFIG_def)
  have t: "\<forall>t\<in>set ?urls. \<not> falsy t" by (simp add: falsy_def)
  have d: "distinct ?urls" and m: "Some ''http://gone.example'' \<in> set ?urls" by simp_all
  have p: "processUrls CONFIG ?urls ?es = Some (Inr ?rs)" by code_simp
  have h: "status (hd (filter (\<lambda>r. url r = ''http://gone.example'')
      (attempts CONFIG ?es (init CONFIG ?urls)))) = Some 0"
    by code_simp
  have a: "0 < concurrency CONFIG \<and> (\<forall>t\<in>set ?urls. \<not> falsy t) \<and> distinct ?urls \<and>
      processUrls CONFIG ?urls ?es = Some (Inr ?rs) \<and> Some ''http://gone.example'' \<in> set ?urls \<and>
      status (hd (filter (\<lambda>r. url r = ''http://gone.example'')
        (attempts CONFIG ?es (init CONFIG ?urls)))) = Some 0"
    using c t d p m h by (intro conjI)
  note R = T [of ?ok 120, THEN conjunct2, THEN conjunct1, rule_format, OF a]
  show ?thesis using k1 k2 k3 f R [THEN conjunct1] R [THEN conjunct2] by (intro conjI)
qed

text \<open>
  The result retained after both attempts failed carries no \<open>retryCount\<close>.
\<close>

theorem no_retryCount_counterexample:
  "processUrls (CONFIG\<lparr>concurrency := 1\<rparr>) [Some ''http://gone.example'']
     [(0, Resolved),
      (0, Navigated (Thrown ''net::ERR_NAME_NOT_RESOLVED at http://gone.example'') 40),
      (0, Resolved),
      (0, Navigated (Thrown ''net::ERR_NAME_NOT_RESOLVED at http://gone.example'') 35),
      (0, Resolved)] =
   Some (Inr [\<lparr>url = ''http://gone.example'', status = Some 0, statusText = Some ''DNS_FAILED'',
               title = None, error = Some ''net::ERR_NAME_NOT_RESOLVED at http://gone.example'',
               time = Some 35\<rparr>]) \<and>
   map_of (result_object
        \<lparr>url = ''http://gone.example'', status = Some 0, statusText = Some ''DNS_FAILED'',
          title = None, error = Some ''net::ERR_NAME_NOT_RESOLVED at http://gone.example'',
          time = Some 35\<rparr>) ''retryCount'' = None"
  by code_simp

section \<open>The claims about the command line\<close>

text \<open>
  C5 (as amended). For a markdown file, the list handed to the workers is made of the
  matches of the URL pattern with their trailing run of comma, full stop and closing
  parenthesis removed, each one once (exact string equality). The lines of \<open>--stdin\<close>
  that start with \<open>http\<close> once trimmed, and the argument of \<open>--url\<close>, are handed over as
  they are, neither trimmed nor deduplicated.
\<close>

theorem frontier_normalized_for_markdown:
  "(indexOf args ''--url'' = None \<and> ''--stdin'' \<notin> set args \<and>
      main_urls args stdin fs = Inr urls \<longrightarrow>
        distinct urls \<and>
        (\<forall>t\<in>set urls. \<exists>u. t = Some u \<and> clean u = u \<and> u \<noteq> [] \<and> \<not> is_trailing (last u) \<and>
             (prefix ''http://'' u \<or> prefix ''https://'' u)) \<and>
        (\<exists>content. fs (hd args) = Some content \<and>
             set urls = (\<lambda>m. Some (clean m)) ` set (match_all content))) \<and>
   (indexOf args ''--url'' = None \<and> ''--stdin'' \<in> set args \<and>
      main_urls args stdin fs = Inr urls \<longrightarrow>
        urls = map Some (filter (\<lambda>l. prefix ''http'' (trim l)) (split_nl stdin))) \<and>
   (indexOf args ''--url'' = Some idx \<longrightarrow>
        main_urls args stdin fs = Inr [at args (idx + 1)])"
proof (intro conjI impI)
  assume a: "indexOf args ''--url'' = None \<and> ''--stdin'' \<notin> set args \<and>
      main_urls args stdin fs = Inr urls"
  then obtain content where c: "fs (hd args) = Some content"
    and u: "urls = map Some (extractUrls content)"
    by (auto simp: main_urls_def Let_def split: list.splits option.splits if_splits)
  show "distinct urls"
    using u by (simp add: distinct_map extractUrls_def distinct_dedupe)
  show "\<forall>t\<in>set urls. \<exists>u. t = Some u \<and> clean u = u \<and> u \<noteq> [] \<and> \<not> is_trailing (last u) \<and>
             (prefix ''http://'' u \<or> prefix ''https://'' u)"
    using u extractUrls_shape [of _ content] by auto
  have "set urls = (\<lambda>m. Some (clean m)) ` set (match_all content)"
    using u by (auto simp: extractUrls_def set_dedupe)
  then show "\<exists>content. fs (hd args) = Some content \<and>
             set urls = (\<lambda>m. Some (clean m)) ` set (match_all content)"
    using c by blast
next
  assume "indexOf args ''--url'' = None \<and> ''--stdin'' \<in> set args \<and>
      main_urls args stdin fs = Inr urls"
  then show "urls = map Some (filter (\<lambda>l. prefix ''http'' (trim l)) (split_nl stdin))"
    by (auto simp: main_urls_def Let_def split: if_splits)
next
  assume "indexOf args ''--url'' = Some idx"
  then show "main_urls args stdin fs = Inr [at args (idx + 1)]"
    by (simp add: main_urls_def)
qed

theorem frontier_normalized_for_markdown_witness:
  "main_urls [''refs.md''] ''''
      [''refs.md'' \<mapsto> ''See (https://a.example/x), http://b.example/y. Again https://a.example/x.'']
    = Inr [Some ''https://a.example/x'', Some ''http://b.example/y''] \<and>
   distinct [Some ''https://a.example/x'', Some ''http://b.example/y''] \<and>
   clean ''https://a.example/x'' = ''https://a.example/x'' \<and>
   main_urls [''--url'', ''https://a.example/x.''] '''' Map.empty = Inr [Some ''https://a.example/x.'']"
proof -
  let ?fs = "[''refs.md'' \<mapsto> ''See (https://a.example/x), http://b.example/y. Again https://a.example/x.'']"
  let ?urls = "[Some ''https://a.example/x'', Some ''http://b.example/y'']"
  have i: "indexOf [''refs.md''] ''--url'' = None" "''--stdin'' \<notin> set [''refs.md'']"
    by simp_all
  have x: "extractUrls ''See (https://a.example/x), http://b.example/y. Again https://a.example/x.''
      = [''https://a.example/x'', ''http://b.example/y'']"
    by code_simp
  have m: "main_urls [''refs.md''] '''' ?fs = Inr ?urls"
    by (simp add: main_urls_def x)
  have j: "indexOf [''--url'', ''https://a.example/x.''] ''--url'' = Some 0" by simp
  have "distinct ?urls \<and>
        (\<forall>t\<in>set ?urls. \<exists>u. t = Some u \<and> clean u = u \<and> u \<noteq> [] \<and> \<not> is_trailing (last u) \<and>
             (prefix ''http://'' u \<or> prefix ''https://'' u))"
    using frontier_normalized_for_markdown [of "[''refs.md'']" "''''" ?fs ?urls] i m by blast
  moreover have "main_urls [''--url'', ''https://a.example/x.''] '''' Map.empty =
      Inr [at [''--url'', ''https://a.example/x.''] (0 + 1)]"
    using frontier_normalized_for_markdown [where args = "[''--url'', ''https://a.example/x.'']" and idx = 0] j
    by blast
  ultimately show ?thesis using m by (simp add: at_def)
qed

text \<open>
  The same URL on two lines of standard input is queued twice, with its trailing full stop.
\<close>

theorem stdin_not_deduplicated_counterexample:
  "main_urls [''--stdin''] (''https://a.example/x.'' @ [CHR 0x0A] @ ''https://a.example/x.'') Map.empty
     = Inr [Some ''https://a.example/x.'', Some ''https://a.example/x.'']"
proof -
  have "filter (\<lambda>u. prefix ''http'' (trim u))
          (split_nl (''https://a.example/x.'' @ [CHR 0x0A] @ ''https://a.example/x.''))
        = [''https://a.example/x.'', ''https://a.example/x.'']"
    by code_simp
  then show ?thesis by (simp add: main_urls_def)
qed

section \<open>The claims about refresh-data\<close>

text \<open>
  C9. \<open>getExtractor\<close> is the first match in the ordered table of the design: a URL that
  contains \<open>instagram.com\<close> selects instagram; one that does not but contains
  \<open>statista.com\<close> selects statista; every other URL selects generic, the last entry,
  which matches every URL.
\<close>

theorem getExtractor_first_match:
  "spec_dispatch spec_registry u = Some (getExtractor u) \<and>
   (sublist ''instagram.com'' u \<longrightarrow> getExtractor u = instagram) \<and>
   (\<not> sublist ''instagram.com'' u \<and> sublist ''statista.com'' u \<longrightarrow> getExtractor u = statista) \<and>
   (\<not> sublist ''instagram.com'' u \<and> \<not> sublist ''statista.com'' u \<longrightarrow> getExtractor u = generic) \<and>
   fst (last spec_registry) u \<and> snd (last spec_registry) = generic"
  by (simp add: spec_registry_def getExtractor_def includes_s_sublist)

theorem getExtractor_first_match_witness:
  "spec_dispatch spec_registry ''https://www.instagram.com/nasa/'' = Some instagram \<and>
   spec_dispatch spec_registry ''https://www.statista.com/statistics/1'' = Some statista \<and>
   spec_dispatch spec_registry ''https://example.org/report'' = Some generic \<and>
   spec_dispatch spec_registry ''https://www.instagram.com/?next=statista.com'' = Some instagram"
proof -
  have "getExtractor ''https://www.instagram.com/nasa/'' = instagram"
     "getExtractor ''https://www.statista.com/statistics/1'' = statista"
     "getExtractor ''https://example.org/report'' = generic"
     "getExtractor ''https://www.instagram.com/?next=statista.com'' = instagram"
    by code_simp+
  then show ?thesis
    using getExtractor_first_match [of "''https://www.instagram.com/nasa/''"]
      getExtractor_first_match [of "''https://www.statista.com/statistics/1''"]
      getExtractor_first_match [of "''https://example.org/report''"]
      getExtractor_first_match [of "''https://www.instagram.com/?next=statista.com''"]
    by simp
qed

text \<open>
  C8 (as amended). When the page has been opened and \<open>page.close()\<close> succeeds, an error
  thrown inside the extraction strategy is caught: \<open>extractData\<close> returns a record with the
  URL, the kind of the extractor, \<open>success\<close> false and the error message. A record is
  returned only when \<open>page.close()\<close> succeeds; an error thrown by \<open>page.close()\<close> in the
  \<open>finally\<close> block, or by opening the page, reaches the caller.
\<close>

theorem extractData_catches:
  "extractData u (Returned ()) (Threw e) (Returned ()) now =
     Inr \<lparr>ex_url = u, ex_type = getExtractor u, ex_data = None,
          ex_success = False, ex_error = Some e, ex_timestamp = now\<rparr> \<and>
   extractData u (Returned ()) (Returned d) (Returned ()) now =
     Inr \<lparr>ex_url = u, ex_type = getExtractor u, ex_data = Some d,
          ex_success = True, ex_error = None, ex_timestamp = now\<rparr> \<and>
   (\<forall>strategy closed r. extractData u (Returned ()) strategy closed now = Inr r \<longrightarrow>
      closed = Returned () \<and>
      (ex_success r \<longleftrightarrow> (\<exists>d. strategy = Returned d)) \<and>
      (\<forall>e'. strategy = Threw e' \<longrightarrow> ex_error r = Some e')) \<and>
   (\<forall>strategy e'. extractData u (Returned ()) strategy (Threw e') now = Inl e') \<and>
   (\<forall>strategy closed e'. extractData u (Threw e') strategy closed now = Inl e')"
  by (auto simp: extractData_def Let_def split: outcome.splits)

theorem extractData_catches_witness:
  "extractData ''https://www.statista.com/statistics/1'' (Returned ())
      (Threw ''Navigation timeout of 20000 ms exceeded'' :: unit outcome) (Returned ()) ''t'' =
     Inr \<lparr>ex_url = ''https://www.statista.com/statistics/1'', ex_type = statista, ex_data = None,
          ex_success = False, ex_error = Some ''Navigation timeout of 20000 ms exceeded'',
          ex_timestamp = ''t''\<rparr>"
proof -
  have "getExtractor ''https://www.statista.com/statistics/1'' = statista" by code_simp
  then show ?thesis
    using extractData_catches [of "''https://www.statista.com/statistics/1''"
        "''Navigation timeout of 20000 ms exceeded''" "''t''" "()", THEN conjunct1]
    by simp
qed

text \<open>
  The strategy fails and so does \<open>page.close()\<close>: the caller gets the second error and
  no record.
\<close>

theorem close_failure_propagates_counterexample:
  "extractData ''https://www.statista.com/statistics/1'' (Returned ())
      (Threw ''Navigation timeout of 20000 ms exceeded'' :: unit outcome)
      (Threw ''Protocol error: Connection closed. Most likely the page has been closed.'') ''t'' =
     Inl ''Protocol error: Connection closed. Most likely the page has been closed.''"
  by (simp add: extractData_def)

end
